theory Spec2Isabelle
  imports Complex_Main "HOL-Library.Word" "HOL-Library.Monad_Syntax"
begin

unbundle bit_operations_syntax

section \<open>Conventions of the embedding\<close>

text \<open>
  The firmware is C for a 32-bit Cortex-M target. \<open>uint8_t\<close>, \<open>uint16_t\<close> and
  \<open>uint32_t\<close> are \<open>8 word\<close>, \<open>16 word\<close> and \<open>32 word\<close>; \<open>size_t\<close> quantities
  are \<open>nat\<close> where the source computes them from values too small to wrap.
  File-scope variables of a translation unit are the fields of one state record, and every
  function takes the state and returns the new one.

  An array access that C leaves undefined (a NULL base pointer, an index outside the
  allocation) is the value \<open>None\<close> of the option monad: the model never invents a result
  for it. Heap arrays are \<open>'a list option\<close> with \<open>None\<close> for the NULL pointer.
  \<open>float\<close> arithmetic is idealised as arithmetic on \<open>real\<close>; only vertex coordinates
  use it and no theorem below depends on their values.
\<close>

definition nth_opt :: "'a list \<Rightarrow> nat \<Rightarrow> 'a option" where
  "nth_opt xs i = (if i < length xs then Some (xs ! i) else None)"

definition upd_opt :: "'a list \<Rightarrow> nat \<Rightarrow> 'a \<Rightarrow> 'a list option" where
  "upd_opt xs i x = (if i < length xs then Some (xs[i := x]) else None)"

text \<open>A counted \<open>for\<close> loop over the given indices, stopping at the first undefined step.\<close>

fun for_loop :: "nat list \<Rightarrow> (nat \<Rightarrow> 's \<Rightarrow> 's option) \<Rightarrow> 's \<Rightarrow> 's option" where
  "for_loop [] body s = Some s"
| "for_loop (i # is) body s =
     (case body i s of None \<Rightarrow> None | Some s' \<Rightarrow> for_loop is body s')"

section \<open>Rendering pipeline (led\_render.c)\<close>

record rgb_8b =
  rgb_r :: "8 word"
  rgb_g :: "8 word"
  rgb_b :: "8 word"

record render_state =
  pixels_total :: "16 word"
  pixels_per_str :: "16 word"
  strip_cnt :: "8 word"
  spi_arr :: "nat list option"
  framebuffer :: "rgb_8b list option"
  strip_buffer :: "8 word list option"
  render_ready :: bool
  encode_tbl :: "32 word list"
  color_map :: "8 word list"
  gamma8 :: "8 word list"

text \<open>The state of the translation unit at program start (static initialisers).\<close>

definition render_boot :: render_state where
  "render_boot = \<lparr> pixels_total = 0, pixels_per_str = 0, strip_cnt = 0, spi_arr = None,
     framebuffer = None, strip_buffer = None, render_ready = False,
     encode_tbl = replicate 256 0, color_map = replicate 3 0, gamma8 = replicate 256 0 \<rparr>"

definition LED_RENDER_MAX_ALLOC :: nat where
  "LED_RENDER_MAX_ALLOC = 16 * 1024"

definition LED_COLOR_ORDER :: string where
  "LED_COLOR_ORDER = ''GRB''"

definition free_buffers :: "render_state \<Rightarrow> render_state" where
  "free_buffers s = s\<lparr>framebuffer := None, strip_buffer := None\<rparr>"

text \<open>
  \<open>init_encode_tbl\<close>: the inner loop runs \<open>b\<close> from 7 down to 0 over the 16-bit loop
  variable \<open>v\<close>, shifting \<open>out\<close> left by three and or-ing in \<open>0b110\<close> or \<open>0b100\<close>.
\<close>

definition encode_step :: "16 word \<Rightarrow> nat \<Rightarrow> 32 word \<Rightarrow> 32 word" where
  "encode_step v b out = push_bit 3 out OR (if drop_bit b v AND 1 \<noteq> 0 then 6 else 4)"

definition encode_value :: "16 word \<Rightarrow> 32 word" where
  "encode_value v = fold (encode_step v) [7, 6, 5, 4, 3, 2, 1, 0] 0"

definition init_encode_tbl :: "render_state \<Rightarrow> render_state" where
  "init_encode_tbl s = s\<lparr>encode_tbl := map (\<lambda>v. encode_value (word_of_nat v)) [0..<256]\<rparr>"

definition color_index :: "char \<Rightarrow> 8 word" where
  "color_index c = (if c = CHR ''R'' then 0 else if c = CHR ''G'' then 1
                    else if c = CHR ''B'' then 2 else 0)"

definition init_color_map :: "render_state \<Rightarrow> render_state" where
  "init_color_map s = s\<lparr>color_map := map color_index (take 3 LED_COLOR_ORDER)\<rparr>"

text \<open>
  \<open>init_render\<close>. The two \<open>malloc\<close> outcomes are the parameters \<open>fb_ok\<close> and \<open>sb_ok\<close>;
  a successful allocation is zeroed by the \<open>memset\<close> that follows before anything reads it.
  The gamma table is computed with \<open>powf\<close>; its 256 bytes are the parameter \<open>gamma\<close>.
  \<open>sizeof(rgb_8b)\<close> is 3.
\<close>

definition init_render ::
  "16 word \<Rightarrow> 8 word \<Rightarrow> nat list option \<Rightarrow> bool \<Rightarrow> bool \<Rightarrow> 8 word list \<Rightarrow>
   render_state \<Rightarrow> bool \<times> render_state" where
  "init_render total_pixels strip_count spi_handles fb_ok sb_ok gamma s0 =
    (let s1 = s0\<lparr>render_ready := False\<rparr> in
     if total_pixels = 0 \<or> strip_count = 0 \<or> spi_handles = None then (False, s1)
     else
       let s2 = s1\<lparr>pixels_total := total_pixels, strip_cnt := strip_count,
                   pixels_per_str := word_of_nat
                     ((unat total_pixels + unat strip_count - 1) div unat strip_count)\<rparr>;
           fb_bytes = 3 * unat (pixels_total s2);
           sb_bytes = unat (strip_cnt s2) * (unat (pixels_per_str s2) * 9 + 1);
           alloc_total = fb_bytes + sb_bytes
       in if LED_RENDER_MAX_ALLOC \<noteq> 0 \<and> alloc_total > LED_RENDER_MAX_ALLOC then (False, s2)
          else
            let s3 = (free_buffers s2)\<lparr>
                       framebuffer := (if fb_ok
                          then Some (replicate (unat (pixels_total s2))
                                 \<lparr>rgb_r = 0, rgb_g = 0, rgb_b = 0\<rparr>) else None),
                       strip_buffer := (if sb_ok then Some (replicate sb_bytes 0) else None),
                       spi_arr := spi_handles\<rparr>
            in if framebuffer s3 = None \<or> strip_buffer s3 = None
               then (False, free_buffers s3)
               else (True, (init_color_map (init_encode_tbl s3))
                             \<lparr>gamma8 := gamma, render_ready := True\<rparr>))"

definition led_render_shutdown :: "render_state \<Rightarrow> render_state" where
  "led_render_shutdown s = (free_buffers s)\<lparr>render_ready := False\<rparr>"

definition qadd8 :: "8 word \<Rightarrow> 8 word \<Rightarrow> 8 word" where
  "qadd8 x y = (let s = x + y in if s < x then 255 else s)"

text \<open>\<open>framebuffer[idx] = c\<close> and \<open>framebuffer[idx]\<close> as the C code performs them.\<close>

definition fb_write :: "nat \<Rightarrow> rgb_8b \<Rightarrow> render_state \<Rightarrow> render_state option" where
  "fb_write idx c s =
     (case framebuffer s of None \<Rightarrow> None
      | Some fb \<Rightarrow> map_option (\<lambda>fb'. s\<lparr>framebuffer := Some fb'\<rparr>) (upd_opt fb idx c))"

definition fb_read :: "nat \<Rightarrow> render_state \<Rightarrow> rgb_8b option" where
  "fb_read idx s = (case framebuffer s of None \<Rightarrow> None | Some fb \<Rightarrow> nth_opt fb idx)"

definition set_all_pixels_color ::
  "8 word \<Rightarrow> 8 word \<Rightarrow> 8 word \<Rightarrow> render_state \<Rightarrow> render_state option" where
  "set_all_pixels_color cr cg cb s =
     (if \<not> render_ready s then Some s
      else for_loop [0..<unat (pixels_total s)]
             (\<lambda>i. fb_write i \<lparr>rgb_r = cr, rgb_g = cg, rgb_b = cb\<rparr>) s)"

definition set_pixel_color ::
  "16 word \<Rightarrow> 8 word \<Rightarrow> 8 word \<Rightarrow> 8 word \<Rightarrow> render_state \<Rightarrow> render_state option" where
  "set_pixel_color idx cr cg cb s =
     (if \<not> render_ready s \<or> idx \<ge> pixels_total s then Some s
      else fb_write (unat idx) \<lparr>rgb_r = cr, rgb_g = cg, rgb_b = cb\<rparr> s)"

definition add_pixel_color ::
  "16 word \<Rightarrow> 8 word \<Rightarrow> 8 word \<Rightarrow> 8 word \<Rightarrow> render_state \<Rightarrow> render_state option" where
  "add_pixel_color idx cr cg cb s =
     (if (cr OR cg OR cb) = 0 then Some s
      else do {
        c \<leftarrow> fb_read (unat idx) s;
        fb_write (unat idx)
          \<lparr>rgb_r = qadd8 (rgb_r c) cr, rgb_g = qadd8 (rgb_g c) cg,
           rgb_b = qadd8 (rgb_b c) cb\<rparr> s
      })"

definition subtract_pixel_color ::
  "16 word \<Rightarrow> 8 word \<Rightarrow> 8 word \<Rightarrow> 8 word \<Rightarrow> render_state \<Rightarrow> render_state option" where
  "subtract_pixel_color idx cr cg cb s =
     do {
       c \<leftarrow> fb_read (unat idx) s;
       fb_write (unat idx)
         \<lparr>rgb_r = (if rgb_r c > cr then rgb_r c - cr else 0),
          rgb_g = (if rgb_g c > cg then rgb_g c - cg else 0),
          rgb_b = (if rgb_b c > cb then rgb_b c - cb else 0)\<rparr> s
     }"

section \<open>Mapping layer (led\_mapping.c)\<close>

record PixelMapping =
  pm_edge :: "8 word"
  pm_phys :: "16 word"

record EdgeLedInfo =
  ei_start :: "16 word"
  ei_count :: "16 word"
  ei_step :: "8 word"

text \<open>
  \<open>ei_step\<close> is the \<open>int8_t\<close> field \<open>step\<close>; \<open>sint\<close> reads it. The file-scope variable
  \<open>pixels_total\<close> of led\_mapping.c is the field \<open>map_pixels_total\<close> (led\_render.c has a
  static of the same name).
\<close>

record mapping_state =
  leds_per_edge :: "8 word list option"
  edge_map :: "8 word list option"
  flip_map :: "bool list option"
  pixel_map :: "PixelMapping list option"
  edge_info :: "EdgeLedInfo list option"
  map_pixels_total :: "16 word"
  edge_cnt :: "8 word"

text \<open>
  The loop \<open>base = 0; for (i = 0; i < phys; ++i) base += leds_per_edge[i];\<close> that both
  builders run: \<open>base\<close> is a \<open>uint16_t\<close>.
\<close>

definition strip_base :: "8 word list \<Rightarrow> 8 word \<Rightarrow> 16 word option" where
  "strip_base leds phys =
     for_loop [0..<unat phys]
       (\<lambda>i base. map_option (\<lambda>n. base + ucast n) (nth_opt leds i)) 0"

text \<open>One iteration of the outer loop of \<open>mapping_build_pixel_map\<close>, on \<open>(px_idx, pixel_map)\<close>.\<close>

definition pixel_map_edge ::
  "mapping_state \<Rightarrow> nat \<Rightarrow> 16 word \<times> PixelMapping list \<Rightarrow>
   (16 word \<times> PixelMapping list) option" where
  "pixel_map_edge s logical st =
     do {
       leds \<leftarrow> leds_per_edge s;
       led_cnt \<leftarrow> nth_opt leds logical;
       emap \<leftarrow> edge_map s;
       phys \<leftarrow> nth_opt emap logical;
       fmap \<leftarrow> flip_map s;
       rev \<leftarrow> nth_opt fmap logical;
       base \<leftarrow> strip_base leds phys;
       for_loop [0..<unat led_cnt]
         (\<lambda>i (px_idx, pm).
            let offset = (if rev then ucast led_cnt - 1 - word_of_nat i else word_of_nat i)
            in map_option (\<lambda>pm'. (px_idx + 1, pm'))
                 (upd_opt pm (unat px_idx)
                    \<lparr>pm_edge = word_of_nat logical, pm_phys = base + offset\<rparr>))
         st
     }"

definition mapping_build_pixel_map :: "mapping_state \<Rightarrow> mapping_state option" where
  "mapping_build_pixel_map s =
     (case pixel_map s of
        None \<Rightarrow> Some s
      | Some pm \<Rightarrow>
          if leds_per_edge s = None then Some s
          else map_option (\<lambda>(px_idx, pm'). s\<lparr>pixel_map := Some pm'\<rparr>)
                 (for_loop [0..<unat (edge_cnt s)] (pixel_map_edge s) (0, pm)))"

text \<open>The body of the loop of \<open>build_edge_index_map\<close>, for the logical edge \<open>e\<close>.\<close>

definition edge_index_entry :: "nat \<Rightarrow> mapping_state \<Rightarrow> mapping_state option" where
  "edge_index_entry e s =
     do {
       emap \<leftarrow> edge_map s;
       phys_strip \<leftarrow> nth_opt emap e;
       leds \<leftarrow> leds_per_edge s;
       base \<leftarrow> strip_base leds phys_strip;
       n \<leftarrow> nth_opt leds e;
       fmap \<leftarrow> flip_map s;
       rev \<leftarrow> nth_opt fmap e;
       let cnt = (ucast n :: 16 word);
       let start = (if rev then base + cnt - 1 else base);
       let step = (if rev then - 1 else 1);
       info \<leftarrow> edge_info s;
       info' \<leftarrow> upd_opt info e \<lparr>ei_start = start, ei_count = cnt, ei_step = step\<rparr>;
       Some (s\<lparr>edge_info := Some info'\<rparr>)
     }"

definition build_edge_index_map :: "mapping_state \<Rightarrow> mapping_state option" where
  "build_edge_index_map s = for_loop [0..<unat (edge_cnt s)] edge_index_entry s"

definition update_mappings :: "mapping_state \<Rightarrow> mapping_state option" where
  "update_mappings s = do { s' \<leftarrow> mapping_build_pixel_map s; build_edge_index_map s' }"


text \<open>
  How the animation code walks an edge (led\_anim.c): \<open>uint16_t phys = inf.start + i * inf.step\<close>,
  the product taken in \<open>int\<close> and the sum truncated to 16 bits.
\<close>

definition edge_led_phys :: "EdgeLedInfo \<Rightarrow> nat \<Rightarrow> 16 word" where
  "edge_led_phys info i = ei_start info + word_of_int (int i * sint (ei_step info))"

section \<open>Topology engine (polyhedron.c)\<close>

definition POLY_MAX_V :: nat where "POLY_MAX_V = 200"
definition POLY_MAX_E :: nat where "POLY_MAX_E = 300"
definition POLY_MAX_F :: nat where "POLY_MAX_F = 120"
definition POLY_MAX_FV :: nat where "POLY_MAX_FV = 10"

type_synonym vec3 = "real \<times> real \<times> real"

record Edge =
  e_a :: "16 word"
  e_b :: "16 word"

text \<open>
  The struct \<open>Polyhedron\<close>. Its arrays have the fixed capacities above:
  \<open>v[POLY_MAX_V][3]\<close>, \<open>fv[POLY_MAX_F]\<close>, \<open>f[POLY_MAX_F][POLY_MAX_FV]\<close>,
  \<open>e[POLY_MAX_E]\<close> and \<open>e2f[POLY_MAX_E][2]\<close>; \<open>poly_sized\<close> says that the lists have
  these lengths. The counters \<open>V\<close>, \<open>F\<close> and \<open>E\<close> are \<open>uint8_t\<close>.
\<close>

record Polyhedron =
  p_V :: "8 word"
  p_v :: "vec3 list"
  p_F :: "8 word"
  p_fv :: "8 word list"
  p_f :: "8 word list list"
  p_E :: "8 word"
  p_e :: "Edge list"
  p_e2f :: "(8 word \<times> 8 word) list"

definition poly_sized :: "Polyhedron \<Rightarrow> bool" where
  "poly_sized p \<longleftrightarrow>
     length (p_v p) = POLY_MAX_V \<and> length (p_fv p) = POLY_MAX_F \<and>
     length (p_f p) = POLY_MAX_F \<and> list_all (\<lambda>row. length row = POLY_MAX_FV) (p_f p) \<and>
     length (p_e p) = POLY_MAX_E \<and> length (p_e2f p) = POLY_MAX_E"

text \<open>\<open>poly_alloc\<close> returns a block cleared by \<open>memset(p, 0, sizeof *p)\<close>.\<close>

definition poly_zero :: Polyhedron where
  "poly_zero = \<lparr> p_V = 0, p_v = replicate POLY_MAX_V (0, 0, 0), p_F = 0,
     p_fv = replicate POLY_MAX_F 0, p_f = replicate POLY_MAX_F (replicate POLY_MAX_FV 0),
     p_E = 0, p_e = replicate POLY_MAX_E \<lparr>e_a = 0, e_b = 0\<rparr>,
     p_e2f = replicate POLY_MAX_E (0, 0) \<rparr>"

text \<open>
  An automatic array that the source declares without an initialiser holds \<open>None\<close> in the
  slots not yet written; reading such a slot is undefined.
\<close>

definition read_init :: "'a option list \<Rightarrow> nat \<Rightarrow> 'a option" where
  "read_init xs i = (case nth_opt xs i of Some (Some x) \<Rightarrow> Some x | _ \<Rightarrow> None)"

text \<open>A \<open>for\<close> loop whose body may \<open>break\<close>: the body returns \<open>True\<close> to leave the loop.\<close>

fun for_break :: "nat list \<Rightarrow> (nat \<Rightarrow> 's \<Rightarrow> (bool \<times> 's) option) \<Rightarrow> 's \<Rightarrow> 's option" where
  "for_break [] body s = Some s"
| "for_break (i # is) body s =
     (case body i s of None \<Rightarrow> None
      | Some (brk, s') \<Rightarrow> if brk then Some s' else for_break is body s')"

subsection \<open>Vector helpers\<close>

definition v_add :: "vec3 \<Rightarrow> vec3 \<Rightarrow> vec3" where
  "v_add d s = (case (d, s) of ((d0, d1, d2), (s0, s1, s2)) \<Rightarrow> (d0 + s0, d1 + s1, d2 + s2))"

definition v_scale :: "vec3 \<Rightarrow> real \<Rightarrow> vec3" where
  "v_scale d k = (case d of (d0, d1, d2) \<Rightarrow> (d0 * k, d1 * k, d2 * k))"

definition v_len :: "vec3 \<Rightarrow> real" where
  "v_len x = (case x of (x0, x1, x2) \<Rightarrow> sqrt (x0 * x0 + x1 * x1 + x2 * x2))"

definition v_lerp :: "vec3 \<Rightarrow> vec3 \<Rightarrow> real \<Rightarrow> vec3" where
  "v_lerp x y t = (case (x, y) of ((x0, x1, x2), (y0, y1, y2)) \<Rightarrow>
     (x0 + t * (y0 - x0), x1 + t * (y1 - x1), x2 + t * (y2 - x2)))"

subsection \<open>Normalisation\<close>

definition poly_normalize :: "Polyhedron \<Rightarrow> Polyhedron option" where
  "poly_normalize p =
     do {
       sum \<leftarrow> for_loop [0..<unat (p_V p)]
                (\<lambda>i acc. map_option (\<lambda>x. acc + v_len x) (nth_opt (p_v p) i)) 0;
       let inv = 1 / (sum / real (unat (p_V p)));
       for_loop [0..<unat (p_V p)]
         (\<lambda>i q. do {
            x \<leftarrow> nth_opt (p_v q) i;
            vs \<leftarrow> upd_opt (p_v q) i (v_scale x inv);
            Some (q\<lparr>p_v := vs\<rparr>)
          }) p
     }"

definition poly_radial_normalize :: "Polyhedron \<Rightarrow> Polyhedron option" where
  "poly_radial_normalize p =
     for_loop [0..<unat (p_V p)]
       (\<lambda>i q. do {
          x \<leftarrow> nth_opt (p_v q) i;
          let r = v_len x;
          if r > 0 then do {
            vs \<leftarrow> upd_opt (p_v q) i (v_scale x (1 / r));
            Some (q\<lparr>p_v := vs\<rparr>)
          } else Some q
        }) p"

definition poly_face_centroid :: "Polyhedron \<Rightarrow> nat \<Rightarrow> vec3 option" where
  "poly_face_centroid p fidx =
     do {
       n \<leftarrow> nth_opt (p_fv p) fidx;
       acc \<leftarrow> for_loop [0..<unat n]
                (\<lambda>j acc. do {
                   row \<leftarrow> nth_opt (p_f p) fidx;
                   vi \<leftarrow> nth_opt row j;
                   x \<leftarrow> nth_opt (p_v p) (unat vi);
                   Some (v_add acc x)
                 }) (0, 0, 0);
       Some (v_scale acc (1 / real (unat n)))
     }"

subsection \<open>Edge table\<close>

text \<open>
  The search \<open>for (e = 0; e < p->E; ++e) if (p->e[e].a == a && p->e[e].b == b) break;\<close>:
  the first matching index, or \<open>dflt\<close> when the loop runs to its end.
\<close>

fun edge_lookup :: "Edge list \<Rightarrow> 16 word \<Rightarrow> 16 word \<Rightarrow> nat list \<Rightarrow> nat \<Rightarrow> nat option" where
  "edge_lookup es a b [] dflt = Some dflt"
| "edge_lookup es a b (k # ks) dflt =
     (case nth_opt es k of None \<Rightarrow> None
      | Some ed \<Rightarrow> if e_a ed = a \<and> e_b ed = b then Some k else edge_lookup es a b ks dflt)"

text \<open>The body of the inner loop of \<open>_build_edges\<close>, for face \<open>f\<close> with \<open>n\<close> vertices.\<close>

definition build_edges_step ::
  "nat \<Rightarrow> nat \<Rightarrow> nat \<Rightarrow> Polyhedron \<Rightarrow> (bool \<times> Polyhedron) option" where
  "build_edges_step f n i p =
     do {
       row \<leftarrow> nth_opt (p_f p) f;
       a0 \<leftarrow> nth_opt row i;
       b0 \<leftarrow> nth_opt row ((i + 1) mod n);
       let a = (if a0 > b0 then b0 else a0);
       let b = (if a0 > b0 then a0 else b0);
       e \<leftarrow> edge_lookup (p_e p) (ucast a) (ucast b) [0..<unat (p_E p)] (unat (p_E p));
       if e = unat (p_E p) \<and> unat (p_E p) \<ge> POLY_MAX_E then Some (True, p)
       else do {
         p1 \<leftarrow> (if e = unat (p_E p)
                 then do {
                   es \<leftarrow> upd_opt (p_e p) e \<lparr>e_a = ucast a, e_b = ucast b\<rparr>;
                   Some (p\<lparr>p_e := es, p_E := p_E p + 1\<rparr>)
                 }
                 else Some p);
         (f0, f1) \<leftarrow> nth_opt (p_e2f p1) e;
         e2f' \<leftarrow> upd_opt (p_e2f p1) e
                   (if f0 = 0xFF then (word_of_nat f, f1) else (f0, word_of_nat f));
         Some (False, p1\<lparr>p_e2f := e2f'\<rparr>)
       }
     }"

definition build_edges :: "Polyhedron \<Rightarrow> Polyhedron option" where
  "build_edges p =
     for_loop [0..<unat (p_F p)]
       (\<lambda>f q. do {
          n \<leftarrow> nth_opt (p_fv q) f;
          for_break [0..<unat n] (build_edges_step f (unat n)) q
        })
       (p\<lparr>p_E := 0, p_e2f := replicate POLY_MAX_E (0xFF, 0xFF)\<rparr>)"

definition poly_prepare :: "Polyhedron \<Rightarrow> Polyhedron option" where
  "poly_prepare p =
     do {
       p1 \<leftarrow> poly_normalize p;
       build_edges (p1\<lparr>p_e2f := replicate POLY_MAX_E (0xFF, 0xFF)\<rparr>)
     }"

definition poly_find_edge :: "Polyhedron \<Rightarrow> 8 word \<Rightarrow> 8 word \<Rightarrow> 8 word option" where
  "poly_find_edge p v0 v1 =
     (let a = (if v0 > v1 then v1 else v0);
          b = (if v0 > v1 then v0 else v1)
      in map_option word_of_nat
           (edge_lookup (p_e p) (ucast a) (ucast b) [0..<unat (p_E p)] 255))"

text \<open>\<open>out->f[fi][k] = x\<close>.\<close>

definition set_face_vertex :: "Polyhedron \<Rightarrow> nat \<Rightarrow> nat \<Rightarrow> 8 word \<Rightarrow> Polyhedron option" where
  "set_face_vertex p fi k x =
     do {
       row \<leftarrow> nth_opt (p_f p) fi;
       row' \<leftarrow> upd_opt row k x;
       fs \<leftarrow> upd_opt (p_f p) fi row';
       Some (p\<lparr>p_f := fs\<rparr>)
     }"

subsection \<open>Dual\<close>

definition common_vertices :: "Polyhedron \<Rightarrow> nat \<Rightarrow> nat \<Rightarrow> 8 word option" where
  "common_vertices inp prev_face next_face =
     do {
       np \<leftarrow> nth_opt (p_fv inp) prev_face;
       for_loop [0..<unat np]
         (\<lambda>a common. do {
            nn \<leftarrow> nth_opt (p_fv inp) next_face;
            for_loop [0..<unat nn]
              (\<lambda>b common. do {
                 rp \<leftarrow> nth_opt (p_f inp) prev_face;
                 x \<leftarrow> nth_opt rp a;
                 rn \<leftarrow> nth_opt (p_f inp) next_face;
                 y \<leftarrow> nth_opt rn b;
                 Some (if x = y then common + 1 else common)
               }) common
          }) 0
     }"

definition sort_incident_faces ::
  "Polyhedron \<Rightarrow> nat \<Rightarrow> 8 word option list \<Rightarrow> nat \<Rightarrow> 8 word option list \<Rightarrow>
   8 word option list option" where
  "sort_incident_faces inp vi inc n order0 =
     do {
       order1 \<leftarrow> upd_opt order0 0 (Some 0);
       used1 \<leftarrow> upd_opt (replicate POLY_MAX_FV False) 0 True;
       (order, used) \<leftarrow>
         for_loop [1..<n]
           (\<lambda>k st. do {
              ord \<leftarrow> read_init (fst st) (k - 1);
              prev_face \<leftarrow> read_init inc (unat ord);
              for_break [0..<n]
                (\<lambda>j (order, used). do {
                   u \<leftarrow> nth_opt used j;
                   if u then Some (False, (order, used))
                   else do {
                     next_face \<leftarrow> read_init inc j;
                     common \<leftarrow> common_vertices inp (unat prev_face) (unat next_face);
                     if common = 2 then do {
                       order' \<leftarrow> upd_opt order k (Some (word_of_nat j));
                       used' \<leftarrow> upd_opt used j True;
                       Some (True, (order', used'))
                     } else Some (False, (order, used))
                   }
                 }) st
            }) (order1, used1);
       Some order
     }"

text \<open>The body of the loop over the vertices \<open>vi\<close> of the input in \<open>poly_dual\<close>.\<close>

definition dual_face :: "Polyhedron \<Rightarrow> nat \<Rightarrow> Polyhedron \<Rightarrow> Polyhedron option" where
  "dual_face inp vi out =
     do {
       (inc, cnt) \<leftarrow>
         for_loop [0..<unat (p_F inp)]
           (\<lambda>f st. do {
              n \<leftarrow> nth_opt (p_fv inp) f;
              for_break [0..<unat n]
                (\<lambda>j (inc, cnt). do {
                   row \<leftarrow> nth_opt (p_f inp) f;
                   x \<leftarrow> nth_opt row j;
                   if unat x = vi then do {
                     inc' \<leftarrow> upd_opt inc (unat cnt) (Some (word_of_nat f));
                     Some (True, (inc', cnt + 1))
                   } else Some (False, (inc, cnt))
                 }) st
            }) (replicate POLY_MAX_FV None, 0 :: 8 word);
       out1 \<leftarrow>
         (if cnt > 2 then do {
            order \<leftarrow> sort_incident_faces inp vi inc (unat cnt) (replicate POLY_MAX_FV None);
            for_loop [0..<unat cnt]
              (\<lambda>k q. do {
                 ord \<leftarrow> read_init order k;
                 x \<leftarrow> read_init inc (unat ord);
                 set_face_vertex q vi k x
               }) out
          } else
            for_loop [0..<unat cnt]
              (\<lambda>k q. do { x \<leftarrow> read_init inc k; set_face_vertex q vi k x }) out);
       fv' \<leftarrow> upd_opt (p_fv out1) vi cnt;
       Some (out1\<lparr>p_fv := fv'\<rparr>)
     }"

definition poly_dual :: "Polyhedron \<Rightarrow> Polyhedron \<Rightarrow> Polyhedron option" where
  "poly_dual inp out =
     (if unat (p_F inp) > POLY_MAX_V \<or> unat (p_V inp) > POLY_MAX_F then Some out
      else do {
        out1 \<leftarrow> for_loop [0..<unat (p_F inp)]
                  (\<lambda>f q. do {
                     c \<leftarrow> poly_face_centroid inp f;
                     let r = v_len c;
                     vs \<leftarrow> upd_opt (p_v q) f (if r > 0 then v_scale c (1 / r) else c);
                     Some (q\<lparr>p_v := vs\<rparr>)
                   }) (out\<lparr>p_V := p_F inp\<rparr>);
        out2 \<leftarrow> for_loop [0..<unat (p_V inp)] (dual_face inp) (out1\<lparr>p_F := p_V inp\<rparr>);
        out3 \<leftarrow> poly_radial_normalize out2;
        poly_prepare out3
      })"

subsection \<open>Truncation\<close>

text \<open>
  \<open>poly_alloc\<close> is \<open>malloc\<close>; the parameter \<open>pool\<close> of the functions that use scratch
  polyhedra is the number of blocks it can still provide. Every function frees what it
  allocated before it returns.
\<close>

definition truncate_cut ::
  "Polyhedron \<Rightarrow> real \<Rightarrow> nat \<Rightarrow> Polyhedron \<times> 8 word option list \<times> 8 word option list \<Rightarrow>
   (Polyhedron \<times> 8 word option list \<times> 8 word option list) option" where
  "truncate_cut tmp t e st =
     (case st of (out, cutA, cutB) \<Rightarrow>
      do {
        ed \<leftarrow> nth_opt (p_e tmp) e;
        let a = (ucast (e_a ed) :: 8 word);
        let b = (ucast (e_b ed) :: 8 word);
        va \<leftarrow> nth_opt (p_v tmp) (unat a);
        vb \<leftarrow> nth_opt (p_v tmp) (unat b);
        vs1 \<leftarrow> upd_opt (p_v out) (unat (p_V out)) (v_lerp va vb t);
        cutA' \<leftarrow> upd_opt cutA e (Some (p_V out));
        let out1 = out\<lparr>p_v := vs1, p_V := p_V out + 1\<rparr>;
        vs2 \<leftarrow> upd_opt (p_v out1) (unat (p_V out1)) (v_lerp vb va t);
        cutB' \<leftarrow> upd_opt cutB e (Some (p_V out1));
        Some (out1\<lparr>p_v := vs2, p_V := p_V out1 + 1\<rparr>, cutA', cutB')
      })"

definition cut_point ::
  "Polyhedron \<Rightarrow> 8 word option list \<Rightarrow> 8 word option list \<Rightarrow> nat \<Rightarrow> 8 word \<Rightarrow>
   8 word option" where
  "cut_point tmp cutA cutB vi eidx =
     do {
       ed \<leftarrow> nth_opt (p_e tmp) (unat eidx);
       if vi = unat (e_a ed) then read_init cutA (unat eidx) else read_init cutB (unat eidx)
     }"

definition truncate_face ::
  "Polyhedron \<Rightarrow> 8 word option list \<Rightarrow> 8 word option list \<Rightarrow> nat \<Rightarrow> Polyhedron \<Rightarrow>
   Polyhedron option" where
  "truncate_face tmp cutA cutB f out =
     do {
       n \<leftarrow> nth_opt (p_fv tmp) f;
       fv' \<leftarrow> upd_opt (p_fv out) (unat (p_F out)) n;
       out1 \<leftarrow> for_loop [0..<unat n]
                  (\<lambda>i q. do {
                     row \<leftarrow> nth_opt (p_f tmp) f;
                     vi \<leftarrow> nth_opt row i;
                     vj \<leftarrow> nth_opt row ((i + 1) mod unat n);
                     let aa = (if vi < vj then vi else vj);
                     let bb = (if vi < vj then vj else vi);
                     eidx \<leftarrow> poly_find_edge tmp aa bb;
                     c \<leftarrow> cut_point tmp cutA cutB (unat vi) eidx;
                     set_face_vertex q (unat (p_F q)) i c
                   }) (out\<lparr>p_fv := fv'\<rparr>);
       Some (out1\<lparr>p_F := p_F out1 + 1\<rparr>)
     }"

definition truncate_vertex ::
  "Polyhedron \<Rightarrow> 8 word option list \<Rightarrow> 8 word option list \<Rightarrow> nat \<Rightarrow> Polyhedron \<Rightarrow>
   Polyhedron option" where
  "truncate_vertex tmp cutA cutB vi out =
     do {
       (inc, cnt) \<leftarrow>
         for_loop [0..<unat (p_E tmp)]
           (\<lambda>e (inc, cnt). do {
              ed \<leftarrow> nth_opt (p_e tmp) e;
              if unat (e_a ed) = vi \<or> unat (e_b ed) = vi then do {
                inc' \<leftarrow> upd_opt inc (unat cnt) (Some (word_of_nat e :: 8 word));
                Some (inc', cnt + 1)
              } else Some (inc, cnt)
            }) (replicate POLY_MAX_FV None, 0 :: 8 word);
       fv' \<leftarrow> upd_opt (p_fv out) (unat (p_F out)) cnt;
       out1 \<leftarrow> for_loop [0..<unat cnt]
                  (\<lambda>k q. do {
                     eidx \<leftarrow> read_init inc k;
                     c \<leftarrow> cut_point tmp cutA cutB vi eidx;
                     set_face_vertex q (unat (p_F q)) k c
                   }) (out\<lparr>p_fv := fv'\<rparr>);
       Some (out1\<lparr>p_F := p_F out1 + 1\<rparr>)
     }"

definition poly_truncate :: "nat \<Rightarrow> Polyhedron \<Rightarrow> Polyhedron \<Rightarrow> real \<Rightarrow> Polyhedron option" where
  "poly_truncate pool inp out t =
     (if pool = 0 then Some out
      else do {
        tmp \<leftarrow> poly_prepare inp;
        (out1, cutA, cutB) \<leftarrow>
          for_loop [0..<unat (p_E tmp)] (truncate_cut tmp t)
            (out\<lparr>p_V := 0\<rparr>, replicate POLY_MAX_E None, replicate POLY_MAX_E None);
        out2 \<leftarrow> for_loop [0..<unat (p_F tmp)] (truncate_face tmp cutA cutB) (out1\<lparr>p_F := 0\<rparr>);
        out3 \<leftarrow> for_loop [0..<unat (p_V tmp)] (truncate_vertex tmp cutA cutB) out2;
        out4 \<leftarrow> poly_radial_normalize out3;
        poly_prepare out4
      })"

subsection \<open>Seeds and composite constructors\<close>

definition seed_tri ::
  "Polyhedron \<Rightarrow> vec3 list \<Rightarrow> nat \<Rightarrow> 8 word list list \<Rightarrow> nat \<Rightarrow> nat \<Rightarrow> Polyhedron option" where
  "seed_tri p Vs vcnt Fs fcnt fvn =
     do {
       p1 \<leftarrow> for_loop [0..<vcnt]
                (\<lambda>i q. do {
                   x \<leftarrow> nth_opt Vs i;
                   vs \<leftarrow> upd_opt (p_v q) i x;
                   Some (q\<lparr>p_v := vs\<rparr>)
                 }) (p\<lparr>p_V := word_of_nat vcnt\<rparr>);
       for_loop [0..<fcnt]
         (\<lambda>i q. do {
            fv' \<leftarrow> upd_opt (p_fv q) i (word_of_nat fvn);
            row \<leftarrow> nth_opt Fs i;
            for_loop [0..<fvn]
              (\<lambda>k q'. do { x \<leftarrow> nth_opt row k; set_face_vertex q' i k x })
              (q\<lparr>p_fv := fv'\<rparr>)
          }) (p1\<lparr>p_F := word_of_nat fcnt\<rparr>)
     }"

definition PHI :: real where
  "PHI = (1 + sqrt 5) * (1 / 2)"

definition tetrahedron_V :: "vec3 list" where
  "tetrahedron_V = [(1, 1, 1), (1, -1, -1), (-1, 1, -1), (-1, -1, 1)]"

definition tetrahedron_F :: "8 word list list" where
  "tetrahedron_F = [[0, 1, 2], [0, 3, 1], [0, 2, 3], [1, 3, 2]]"

definition cube_V :: "vec3 list" where
  "cube_V = [(1, 1, 1), (1, 1, -1), (1, -1, 1), (1, -1, -1),
             (-1, 1, 1), (-1, 1, -1), (-1, -1, 1), (-1, -1, -1)]"

definition cube_F :: "8 word list list" where
  "cube_F = [[0, 2, 3], [0, 3, 1], [4, 5, 7], [4, 7, 6],
             [0, 1, 5], [0, 5, 4], [2, 6, 7], [2, 7, 3],
             [0, 4, 6], [0, 6, 2], [1, 3, 7], [1, 7, 5]]"

definition cube4_F :: "8 word list list" where
  "cube4_F = [[0, 2, 3, 1], [4, 5, 7, 6], [0, 1, 5, 4], [2, 6, 7, 3],
              [0, 4, 6, 2], [1, 3, 7, 5]]"

definition icosahedron_V :: "vec3 list" where
  "icosahedron_V = [(0, 1, PHI), (0, -1, PHI), (0, 1, - PHI), (0, -1, - PHI),
                    (1, PHI, 0), (-1, PHI, 0), (1, - PHI, 0), (-1, - PHI, 0),
                    (PHI, 0, 1), (PHI, 0, -1), (- PHI, 0, 1), (- PHI, 0, -1)]"

definition icosahedron_F :: "8 word list list" where
  "icosahedron_F = [[0, 1, 8], [0, 8, 4], [0, 4, 5], [0, 5, 10], [0, 10, 1],
                    [1, 8, 6], [1, 6, 7], [1, 7, 10],
                    [2, 3, 11], [2, 11, 5], [2, 5, 4], [2, 4, 9], [2, 9, 3],
                    [3, 9, 6], [3, 6, 7], [3, 7, 11],
                    [4, 8, 9], [5, 11, 10], [6, 8, 9], [7, 10, 11]]"

text \<open>
  The seeds. \<open>_seed_tri\<close> copies \<open>vcnt\<close> vertex rows and, per face, three indices;
  \<open>poly_init_cube4\<close> does the same with four indices per face, so both are \<open>seed_tri\<close>
  with the face size as a parameter.
\<close>

definition poly_init_tetrahedron :: "Polyhedron \<Rightarrow> Polyhedron option" where
  "poly_init_tetrahedron p =
     do { p1 \<leftarrow> seed_tri p tetrahedron_V 4 tetrahedron_F 4 3;
          p2 \<leftarrow> poly_radial_normalize p1; poly_prepare p2 }"

definition poly_init_cube :: "Polyhedron \<Rightarrow> Polyhedron option" where
  "poly_init_cube p =
     do { p1 \<leftarrow> seed_tri p cube_V 8 cube_F 12 3;
          p2 \<leftarrow> poly_radial_normalize p1; poly_prepare p2 }"

definition poly_init_cube4 :: "Polyhedron \<Rightarrow> Polyhedron option" where
  "poly_init_cube4 p =
     do { p1 \<leftarrow> seed_tri p cube_V 8 cube4_F 6 4;
          p2 \<leftarrow> poly_radial_normalize p1; poly_prepare p2 }"

definition poly_init_icosahedron :: "Polyhedron \<Rightarrow> Polyhedron option" where
  "poly_init_icosahedron p =
     do { p1 \<leftarrow> seed_tri p icosahedron_V 12 icosahedron_F 20 3;
          p2 \<leftarrow> poly_radial_normalize p1; poly_prepare p2 }"

definition poly_init_octahedron :: "nat \<Rightarrow> Polyhedron \<Rightarrow> Polyhedron option" where
  "poly_init_octahedron pool p =
     (if pool = 0 then Some p
      else do { tmp \<leftarrow> poly_init_cube4 poly_zero; poly_dual tmp p })"

definition poly_init_dodecahedron :: "nat \<Rightarrow> Polyhedron \<Rightarrow> Polyhedron option" where
  "poly_init_dodecahedron pool p =
     (if pool = 0 then Some p
      else do { tmp \<leftarrow> poly_init_icosahedron poly_zero; poly_dual tmp p })"

definition poly_init_icosidodecahedron :: "nat \<Rightarrow> Polyhedron \<Rightarrow> Polyhedron option" where
  "poly_init_icosidodecahedron pool p =
     (if pool < 2 then Some p
      else do {
        dode \<leftarrow> poly_init_dodecahedron (pool - 2) poly_zero;
        trunc \<leftarrow> poly_truncate (pool - 2) dode poly_zero (1 / 2);
        Some trunc
      })"

text \<open>
  Steps 3 and 4 of \<open>poly_init_rhombitruncated_icosidodecahedron\<close>: dualize the truncated
  solid \<open>tmp\<close> into the caller's buffer, then \<open>poly_radial_normalize(p); poly_prepare(p)\<close>.
\<close>

definition rhombi_finish :: "Polyhedron \<Rightarrow> Polyhedron \<Rightarrow> Polyhedron option" where
  "rhombi_finish tmp p =
     do { p1 \<leftarrow> poly_dual tmp p; p2 \<leftarrow> poly_radial_normalize p1; poly_prepare p2 }"

definition poly_init_rhombitruncated_icosidodecahedron ::
  "nat \<Rightarrow> Polyhedron \<Rightarrow> Polyhedron option" where
  "poly_init_rhombitruncated_icosidodecahedron pool p =
     (if pool < 2 then Some p
      else do {
        seed \<leftarrow> poly_init_icosidodecahedron (pool - 2) poly_zero;
        seed1 \<leftarrow> poly_radial_normalize seed;
        seed2 \<leftarrow> poly_prepare seed1;
        tmp \<leftarrow> poly_truncate (pool - 2) seed2 poly_zero (1 / 2);
        rhombi_finish tmp p
      })"

section \<open>Specification-side definitions\<close>

text \<open>
  The decoder that the specification describes for the bit-encoding table: each 3-bit
  group of a 24-bit code is checked against \<open>110\<close> (a one) and \<open>100\<close> (a zero); any
  other group does not decode. Group \<open>k\<close> occupies bits \<open>3k..3k+2\<close> and carries bit \<open>k\<close>
  of the byte, so the group of bit 7 is the most significant and is sent first.
\<close>

definition spec_decode_group :: "32 word \<Rightarrow> nat \<Rightarrow> bool option" where
  "spec_decode_group c k =
     (let g = drop_bit (3 * k) c AND 7 in
      if g = 6 then Some True else if g = 4 then Some False else None)"

definition spec_decode :: "32 word \<Rightarrow> 8 word option" where
  "spec_decode c =
     map_option (\<lambda>bs. horner_sum of_bool 2 bs)
       (those (map (spec_decode_group c) [0..<8]))"

text \<open>What the claim about the table says of one byte \<open>v\<close> and its code.\<close>

definition encode_ok :: "8 word \<Rightarrow> bool" where
  "encode_ok v =
     (let c = encode_value (ucast v) in
      c < 2 ^ 24 \<and>
      map (\<lambda>k. drop_bit (3 * k) c AND 7) (rev [0..<8]) =
        map (\<lambda>k. if bit v k then 6 else 4) (rev [0..<8]) \<and>
      spec_decode c = Some v)"

text \<open>
  Closed forms of what the two mapping builders write, used to state and prove the claims
  about them. \<open>led_base leds k\<close> is the 16-bit sum of the first \<open>k\<close> entries of
  \<open>leds_per_edge\<close>; \<open>pixel_block\<close> is the run of \<open>pixel_map\<close> entries written for one
  logical edge; \<open>edge_info_of\<close> is the \<open>edge_info\<close> entry written for it.
\<close>

definition led_base :: "8 word list \<Rightarrow> nat \<Rightarrow> 16 word" where
  "led_base leds k = word_of_nat (sum_list (map unat (take k leds)))"

definition pixel_block :: "8 word list \<Rightarrow> 8 word list \<Rightarrow> bool list \<Rightarrow> nat \<Rightarrow> PixelMapping list" where
  "pixel_block leds emap fmap l =
     map (\<lambda>i. \<lparr>pm_edge = word_of_nat l,
               pm_phys = led_base leds (unat (emap ! l)) +
                 (if fmap ! l then ucast (leds ! l) - 1 - word_of_nat i else word_of_nat i)\<rparr>)
       [0..<unat (leds ! l)]"

definition edge_info_of :: "8 word list \<Rightarrow> 8 word list \<Rightarrow> bool list \<Rightarrow> nat \<Rightarrow> EdgeLedInfo" where
  "edge_info_of leds emap fmap e =
     \<lparr>ei_start = (if fmap ! e then led_base leds (unat (emap ! e)) + ucast (leds ! e) - 1
                  else led_base leds (unat (emap ! e))),
      ei_count = ucast (leds ! e),
      ei_step = (if fmap ! e then - 1 else 1)\<rparr>"

text \<open>
  A mapping state as \<open>init_mapping\<close> leaves it and as the edits through
  \<open>mapping_edit_edge_map\<close> and \<open>mapping_edit_flip_map\<close> keep it: the five arrays are
  allocated with \<open>edge_cnt\<close> entries (\<open>pixel_map\<close>: one per LED), and every \<open>edge_map\<close>
  entry names one of the \<open>edge_cnt\<close> strip blocks.
\<close>

definition mapping_wf :: "mapping_state \<Rightarrow> bool" where
  "mapping_wf s =
     (case (leds_per_edge s, edge_map s, flip_map s, pixel_map s, edge_info s) of
        (Some leds, Some emap, Some fmap, Some pm, Some info) \<Rightarrow>
          length leds = unat (edge_cnt s) \<and> length emap = unat (edge_cnt s) \<and>
          length fmap = unat (edge_cnt s) \<and> length info = unat (edge_cnt s) \<and>
          length pm = sum_list (map unat leds) \<and>
          list_all (\<lambda>x. unat x < unat (edge_cnt s)) emap
      | _ \<Rightarrow> False)"

text \<open>
  Two concrete mapping states. \<open>demo_mapping\<close>: two edges of 2 and 3 LEDs, swapped
  strip blocks, the first edge flipped. \<open>bad_mapping\<close>: the three edges of a single
  triangular face whose first edge is 1/24 as long as the other two (1, 24 and 24 LEDs),
  after the first two \<open>edge_map\<close> entries were swapped.
\<close>

definition demo_mapping :: mapping_state where
  "demo_mapping = \<lparr> leds_per_edge = Some [2, 3], edge_map = Some [1, 0],
     flip_map = Some [True, False],
     pixel_map = Some (replicate 5 \<lparr>pm_edge = 0, pm_phys = 0\<rparr>),
     edge_info = Some (replicate 2 \<lparr>ei_start = 0, ei_count = 0, ei_step = 0\<rparr>),
     map_pixels_total = 5, edge_cnt = 2 \<rparr>"

definition bad_mapping :: mapping_state where
  "bad_mapping = \<lparr> leds_per_edge = Some [1, 24, 24], edge_map = Some [1, 0, 2],
     flip_map = Some [False, False, False],
     pixel_map = Some (replicate 49 \<lparr>pm_edge = 0, pm_phys = 0\<rparr>),
     edge_info = Some (replicate 3 \<lparr>ei_start = 0, ei_count = 0, ei_step = 0\<rparr>),
     map_pixels_total = 49, edge_cnt = 3 \<rparr>"

text \<open>
  \<open>has_faces p n Fs\<close>: the polyhedron has the faces \<open>Fs\<close>, each of \<open>n\<close> vertices, in its
  first \<open>length Fs\<close> face slots (what a seed constructor writes).
\<close>

definition has_faces :: "Polyhedron \<Rightarrow> nat \<Rightarrow> 8 word list list \<Rightarrow> bool" where
  "has_faces p n Fs \<longleftrightarrow>
     p_F p = word_of_nat (length Fs) \<and>
     map (\<lambda>i. p_fv p ! i) [0..<length Fs] = replicate (length Fs) (word_of_nat n) \<and>
     map (\<lambda>i. map (\<lambda>k. p_f p ! i ! k) [0..<n]) [0..<length Fs] = Fs"

text \<open>
  The invariant of the edge builder: the edge array keeps its \<open>n\<close> slots, and the first
  \<open>E\<close> of them hold pairwise different vertex pairs.
\<close>

definition edges_inv :: "nat \<Rightarrow> Polyhedron \<Rightarrow> bool" where
  "edges_inv n u \<longleftrightarrow> length (p_e u) = n \<and> distinct (take (unat (p_E u)) (p_e u))"

text \<open>\<open>same_faces p u\<close>: \<open>u\<close> has the vertices and faces of \<open>p\<close>, and edge arrays of the same size.\<close>

definition same_faces :: "Polyhedron \<Rightarrow> Polyhedron \<Rightarrow> bool" where
  "same_faces p u \<longleftrightarrow>
     p_V u = p_V p \<and> p_v u = p_v p \<and> p_F u = p_F p \<and> p_fv u = p_fv p \<and> p_f u = p_f p \<and>
     length (p_e u) = length (p_e p) \<and> length (p_e2f u) = length (p_e2f p)"

text \<open>
  \<open>faces_fit p\<close>: the face count is within \<open>POLY_MAX_F\<close> and every face has at most
  \<open>POLY_MAX_FV\<close> vertices.
\<close>

definition faces_fit :: "Polyhedron \<Rightarrow> bool" where
  "faces_fit p \<longleftrightarrow>
     unat (p_F p) \<le> POLY_MAX_F \<and>
     list_all (\<lambda>n. unat n \<le> POLY_MAX_FV) (take (unat (p_F p)) (p_fv p))"

text \<open>
  The tetrahedron seed before normalisation (\<open>_seed_tri\<close> on a zeroed block), and the same
  with its edge table built.
\<close>

definition tetra_seed :: Polyhedron where
  "tetra_seed = the (seed_tri poly_zero tetrahedron_V 4 tetrahedron_F 4 3)"

definition tetra_built :: Polyhedron where
  "tetra_built = the (build_edges tetra_seed)"

text \<open>
  The edge list \<open>e[0..E)\<close> of a polyhedron, and what it means for it to be prepared:
  running the edge builder again reproduces the edge count, the edge list and the
  edge-to-face table.
\<close>

definition edge_list :: "Polyhedron \<Rightarrow> Edge list" where
  "edge_list p = take (unat (p_E p)) (p_e p)"

definition poly_prepared :: "Polyhedron \<Rightarrow> bool" where
  "poly_prepared p =
     (case build_edges p of
        None \<Rightarrow> False
      | Some q \<Rightarrow> p_E q = p_E p \<and> edge_list q = edge_list p \<and> p_e2f q = p_e2f p)"

text \<open>
  \<open>edges_agree u w\<close>: two states of the edge builder with the same faces, the same edge
  count, edge list and edge-to-face table (the entries of \<open>e\<close> beyond \<open>E\<close> may differ).
\<close>

definition edges_agree :: "Polyhedron \<Rightarrow> Polyhedron \<Rightarrow> bool" where
  "edges_agree u w \<longleftrightarrow>
     p_F w = p_F u \<and> p_fv w = p_fv u \<and> p_f w = p_f u \<and> p_E w = p_E u \<and>
     length (p_e w) = length (p_e u) \<and> edge_list w = edge_list u \<and> p_e2f w = p_e2f u"

text \<open>
  The capacity bounds under which \<open>poly_truncate\<close> stays inside its arrays: room for
  \<open>2E\<close> vertices and \<open>F + V\<close> faces in the output, faces of at most \<open>POLY_MAX_FV\<close>
  vertices, edge endpoints that index the vertex array, at most \<open>POLY_MAX_FV\<close> edges at
  each vertex (the size of \<open>inc\<close>), and every side of every face present in the edge
  list (its cut points are only defined for listed edges).
\<close>

definition face_side :: "Polyhedron \<Rightarrow> nat \<Rightarrow> nat \<Rightarrow> Edge" where
  "face_side p f i =
     (let n = unat (p_fv p ! f);
          a0 = p_f p ! f ! i;
          b0 = p_f p ! f ! ((i + 1) mod n)
      in \<lparr>e_a = ucast (min a0 b0), e_b = ucast (max a0 b0)\<rparr>)"

definition incident :: "nat \<Rightarrow> Edge \<Rightarrow> bool" where
  "incident vi ed \<longleftrightarrow> unat (e_a ed) = vi \<or> unat (e_b ed) = vi"

definition truncate_fits :: "Polyhedron \<Rightarrow> bool" where
  "truncate_fits p \<longleftrightarrow>
     2 * unat (p_E p) \<le> POLY_MAX_V \<and>
     unat (p_F p) + unat (p_V p) \<le> POLY_MAX_F \<and>
     faces_fit p \<and>
     list_all (\<lambda>ed. unat (e_a ed) < POLY_MAX_V \<and> unat (e_b ed) < POLY_MAX_V) (edge_list p) \<and>
     list_all (\<lambda>vi. length (filter (incident vi) (edge_list p)) \<le> POLY_MAX_FV)
       [0..<unat (p_V p)] \<and>
     list_all (\<lambda>f. list_all (\<lambda>i. face_side p f i \<in> set (edge_list p))
                       [0..<unat (p_fv p ! f)])
       [0..<unat (p_F p)]"

text \<open>
  The seed that \<open>poly_init_rhombitruncated_icosidodecahedron\<close> hands to \<open>poly_truncate\<close>:
  the dodecahedron truncated at \<open>t = 1/2\<close>. Each of the 30 edges of the dodecahedron carries
  two cut points (which coincide at the midpoint), so there are 60 vertices; the 12 pentagons
  and the 20 vertex triangles follow, numbered as \<open>poly_truncate\<close> writes them.
  \<open>icosi_topo\<close> holds the counts and the face table, \<open>icosi_faces\<close> adds the vertices, and
  \<open>icosi_seed\<close> is the result of \<open>poly_prepare\<close> on them.
\<close>

definition icosi_V :: "vec3 list" where
  "icosi_V =
    [(1 / 2, (PHI - 1) / 2, PHI / 2), (1 / 2, (PHI - 1) / 2, PHI / 2),
     ((PHI - 1) / 2, PHI / 2, 1 / 2), ((PHI - 1) / 2, PHI / 2, 1 / 2),
     (- ((PHI - 1) / 2), PHI / 2, 1 / 2), (- ((PHI - 1) / 2), PHI / 2, 1 / 2),
     (- (1 / 2), (PHI - 1) / 2, PHI / 2), (- (1 / 2), (PHI - 1) / 2, PHI / 2),
     (0, 0, 1), (0, 0, 1),
     (- (1 / 2), - ((PHI - 1) / 2), PHI / 2), (- (1 / 2), - ((PHI - 1) / 2), PHI / 2),
     (- ((PHI - 1) / 2), - (PHI / 2), 1 / 2), (- ((PHI - 1) / 2), - (PHI / 2), 1 / 2),
     ((PHI - 1) / 2, - (PHI / 2), 1 / 2), ((PHI - 1) / 2, - (PHI / 2), 1 / 2),
     (1 / 2, - ((PHI - 1) / 2), PHI / 2), (1 / 2, - ((PHI - 1) / 2), PHI / 2),
     (- (1 / 2), (PHI - 1) / 2, - (PHI / 2)), (- (1 / 2), (PHI - 1) / 2, - (PHI / 2)),
     (- ((PHI - 1) / 2), PHI / 2, - (1 / 2)), (- ((PHI - 1) / 2), PHI / 2, - (1 / 2)),
     ((PHI - 1) / 2, PHI / 2, - (1 / 2)), ((PHI - 1) / 2, PHI / 2, - (1 / 2)),
     (1 / 2, (PHI - 1) / 2, - (PHI / 2)), (1 / 2, (PHI - 1) / 2, - (PHI / 2)),
     (0, 0, - 1), (0, 0, - 1),
     (1 / 2, - ((PHI - 1) / 2), - (PHI / 2)), (1 / 2, - ((PHI - 1) / 2), - (PHI / 2)),
     ((PHI - 1) / 2, - (PHI / 2), - (1 / 2)), ((PHI - 1) / 2, - (PHI / 2), - (1 / 2)),
     (- ((PHI - 1) / 2), - (PHI / 2), - (1 / 2)), (- ((PHI - 1) / 2), - (PHI / 2), - (1 / 2)),
     (- (1 / 2), - ((PHI - 1) / 2), - (PHI / 2)), (- (1 / 2), - ((PHI - 1) / 2), - (PHI / 2)),
     (0, 1, 0), (0, 1, 0),
     (PHI / 2, 1 / 2, - ((PHI - 1) / 2)), (PHI / 2, 1 / 2, - ((PHI - 1) / 2)),
     (PHI / 2, 1 / 2, (PHI - 1) / 2), (PHI / 2, 1 / 2, (PHI - 1) / 2),
     (- (PHI / 2), 1 / 2, (PHI - 1) / 2), (- (PHI / 2), 1 / 2, (PHI - 1) / 2),
     (- (PHI / 2), 1 / 2, - ((PHI - 1) / 2)), (- (PHI / 2), 1 / 2, - ((PHI - 1) / 2)),
     (0, - 1, 0), (0, - 1, 0),
     (PHI / 2, - (1 / 2), - ((PHI - 1) / 2)), (PHI / 2, - (1 / 2), - ((PHI - 1) / 2)),
     (PHI / 2, - (1 / 2), (PHI - 1) / 2), (PHI / 2, - (1 / 2), (PHI - 1) / 2),
     (- (PHI / 2), - (1 / 2), (PHI - 1) / 2), (- (PHI / 2), - (1 / 2), (PHI - 1) / 2),
     (- (PHI / 2), - (1 / 2), - ((PHI - 1) / 2)), (- (PHI / 2), - (1 / 2), - ((PHI - 1) / 2)),
     (1, 0, 0), (1, 0, 0),
     (- 1, 0, 0), (- 1, 0, 0)]"

definition icosi_F :: "8 word list list" where
  "icosi_F =
    [[0, 2, 4, 6, 9], [8, 10, 13, 15, 17], [18, 20, 22, 24, 27], [26, 28, 30, 32, 35],
     [2, 36, 22, 38, 41], [4, 42, 45, 20, 37], [14, 46, 31, 48, 51], [12, 52, 55, 33, 47],
     [0, 40, 56, 51, 17], [24, 28, 48, 57, 39], [6, 10, 52, 59, 43], [18, 44, 58, 55, 35],
     [0, 8, 16], [1, 2, 40], [3, 4, 36], [5, 6, 42],
     [7, 9, 10], [14, 17, 50], [12, 15, 46], [11, 13, 52],
     [18, 26, 34], [19, 20, 44], [21, 22, 37], [23, 24, 38],
     [25, 27, 28], [29, 30, 48], [31, 32, 47], [33, 35, 54],
     [39, 41, 56], [43, 45, 58], [49, 51, 57], [53, 55, 59]]"

definition icosi_topo :: Polyhedron where
  "icosi_topo = poly_zero\<lparr>p_V := 60, p_F := 32,
     p_fv := map (\<lambda>row. word_of_nat (length row)) icosi_F @ replicate 88 0,
     p_f := map (\<lambda>row. row @ replicate (POLY_MAX_FV - length row) 0) icosi_F @
            replicate 88 (replicate POLY_MAX_FV 0)\<rparr>"

definition icosi_faces :: Polyhedron where
  "icosi_faces = icosi_topo\<lparr>p_v := icosi_V @ replicate 140 (0, 0, 0)\<rparr>"

definition icosi_seed :: Polyhedron where
  "icosi_seed = the (poly_prepare icosi_faces)"

section \<open>Verification: loops\<close>

lemma for_loop_append:
  "for_loop (xs @ ys) body s =
     (case for_loop xs body s of None \<Rightarrow> None | Some s' \<Rightarrow> for_loop ys body s')"
  by (induction xs arbitrary: s) (auto split: option.splits)

lemma for_loop_fun:
  assumes "g 0 = s" and "\<And>i. i < n \<Longrightarrow> body i (g i) = Some (g (Suc i))"
  shows "for_loop [0..<n] body s = Some (g n)"
  using assms(2)
proof (induction n)
  case 0
  then show ?case using assms(1) by simp
next
  case (Suc n)
  then have "for_loop [0..<n] body s = Some (g n)" by simp
  then show ?case using Suc.prems[of n] by (simp add: for_loop_append)
qed

lemma upt_0_numeral: "[0..<numeral n] = 0 # [Suc 0..<numeral n]"
  by (rule upt_conv_Cons) simp
lemma upt_1_numeral: "[Suc 0..<numeral n] = (if Suc 0 < (numeral n :: nat) then Suc 0 # [2..<numeral n] else [])"
proof (cases "Suc 0 < (numeral n :: nat)")
  case True
  then have "[Suc 0..<numeral n] = Suc 0 # [Suc (Suc 0)..<numeral n]" by (rule upt_conv_Cons)
  then show ?thesis using True by (simp only: if_True numeral_2_eq_2)
next
  case False
  then have "numeral n \<le> Suc 0" by (simp only: not_less)
  then have "[Suc 0..<numeral n] = []" by (simp only: upt_eq_Nil_conv) blast
  then show ?thesis using False by (simp only: if_False)
qed
lemma for_loop_inv:
  assumes "I s" and "\<And>i u. i \<in> set xs \<Longrightarrow> I u \<Longrightarrow> \<exists>u'. body i u = Some u' \<and> I u'"
  shows "\<exists>t. for_loop xs body s = Some t \<and> I t"
  using assms
proof (induction xs arbitrary: s)
  case Nil
  then show ?case by simp
next
  case (Cons x xs)
  from Cons.prems obtain u where u: "body x s = Some u" "I u" by (meson list.set_intros(1))
  have "\<exists>t. for_loop xs body u = Some t \<and> I t"
    by (rule Cons.IH[OF u(2)]) (use Cons.prems(2) in auto)
  then show ?case using u by simp
qed

lemma for_break_inv:
  assumes "I s"
    and "\<And>i u. i \<in> set xs \<Longrightarrow> I u \<Longrightarrow> \<exists>b u'. body i u = Some (b, u') \<and> I u'"
  shows "\<exists>t. for_break xs body s = Some t \<and> I t"
  using assms
proof (induction xs arbitrary: s)
  case Nil
  then show ?case by simp
next
  case (Cons x xs)
  from Cons.prems obtain b u where u: "body x s = Some (b, u)" "I u"
    by (meson list.set_intros(1))
  have "\<exists>t. for_break xs body u = Some t \<and> I t"
    by (rule Cons.IH[OF u(2)]) (use Cons.prems(2) in auto)
  then show ?case using u by simp
qed

lemma for_loop_pres:
  assumes "for_loop xs body s = Some t" and "I s"
    and "\<And>i u u'. i \<in> set xs \<Longrightarrow> I u \<Longrightarrow> body i u = Some u' \<Longrightarrow> I u'"
  shows "I t"
  using assms
proof (induction xs arbitrary: s)
  case Nil
  then show ?case by simp
next
  case (Cons x xs)
  from Cons.prems(1) obtain u where u: "body x s = Some u" "for_loop xs body u = Some t"
    by (auto split: option.splits)
  have "I u" using Cons.prems(2,3) u(1) by (meson list.set_intros(1))
  then show ?case using Cons.IH[OF u(2)] Cons.prems(3) by (meson list.set_intros(2))
qed

lemma for_break_pres:
  assumes "for_break xs body s = Some t" and "I s"
    and "\<And>i u b u'. i \<in> set xs \<Longrightarrow> I u \<Longrightarrow> body i u = Some (b, u') \<Longrightarrow> I u'"
  shows "I t"
  using assms
proof (induction xs arbitrary: s)
  case Nil
  then show ?case by simp
next
  case (Cons x xs)
  from Cons.prems(1) obtain b u where u: "body x s = Some (b, u)"
    "if b then t = u else for_break xs body u = Some t"
    by (auto split: option.splits if_splits)
  have Iu: "I u" using Cons.prems(2,3) u(1) by (meson list.set_intros(1))
  show ?case
  proof (cases b)
    case True
    then show ?thesis using u(2) Iu by simp
  next
    case False
    then have "for_break xs body u = Some t" using u(2) by simp
    then show ?thesis using Cons.IH[OF _ Iu] Cons.prems(3) by (meson list.set_intros(2))
  qed
qed

lemma for_loop_map:
  assumes "\<And>i u. i \<in> set xs \<Longrightarrow> body i (h u) = map_option h (body i u)"
  shows "for_loop xs body (h s) = map_option h (for_loop xs body s)"
  using assms
proof (induction xs arbitrary: s)
  case Nil
  then show ?case by simp
next
  case (Cons x xs)
  then show ?case by (cases "body x s") auto
qed

lemma for_break_map:
  assumes "\<And>i u. i \<in> set xs \<Longrightarrow> body i (h u) = map_option (map_prod id h) (body i u)"
  shows "for_break xs body (h s) = map_option h (for_break xs body s)"
  using assms
proof (induction xs arbitrary: s)
  case Nil
  then show ?case by simp
next
  case (Cons x xs)
  then show ?case by (cases "body x s") (auto split: prod.splits)
qed

lemma for_loop_inv_idx:
  assumes "I 0 s" and "\<And>i u. i < n \<Longrightarrow> I i u \<Longrightarrow> \<exists>u'. body i u = Some u' \<and> I (Suc i) u'"
  shows "\<exists>t. for_loop [0..<n] body s = Some t \<and> I n t"
  using assms(2)
proof (induction n)
  case 0
  then show ?case using assms(1) by simp
next
  case (Suc n)
  then obtain t where t: "for_loop [0..<n] body s = Some t" "I n t" by fastforce
  from Suc.prems[of n t] t(2) obtain u' where "body n t = Some u'" "I (Suc n) u'" by blast
  then show ?case using t(1) by (simp add: for_loop_append)
qed

text \<open>Two runs of a loop from related states stay related.\<close>

lemma for_loop_sim:
  assumes "for_loop xs body s = Some t" and "R s w"
    and "\<And>i u u' v. i \<in> set xs \<Longrightarrow> R u v \<Longrightarrow> body i u = Some u' \<Longrightarrow>
           \<exists>v'. body i v = Some v' \<and> R u' v'"
  shows "\<exists>w'. for_loop xs body w = Some w' \<and> R t w'"
  using assms
proof (induction xs arbitrary: s w)
  case Nil
  then show ?case by simp
next
  case (Cons x xs)
  from Cons.prems(1) obtain u where u: "body x s = Some u" "for_loop xs body u = Some t"
    by (auto split: option.splits)
  from Cons.prems(3)[OF _ Cons.prems(2) u(1)] obtain v where v: "body x w = Some v" "R u v"
    by auto
  have "\<exists>w'. for_loop xs body v = Some w' \<and> R t w'"
    by (rule Cons.IH[OF u(2) v(2)]) (use Cons.prems(3) in auto)
  then show ?case using v(1) by simp
qed

lemma for_break_sim:
  assumes "for_break xs body s = Some t" and "R s w"
    and "\<And>i u b u' v. i \<in> set xs \<Longrightarrow> R u v \<Longrightarrow> body i u = Some (b, u') \<Longrightarrow>
           \<exists>v'. body i v = Some (b, v') \<and> R u' v'"
  shows "\<exists>w'. for_break xs body w = Some w' \<and> R t w'"
  using assms
proof (induction xs arbitrary: s w)
  case Nil
  then show ?case by simp
next
  case (Cons x xs)
  from Cons.prems(1) obtain b u where u: "body x s = Some (b, u)"
    "if b then t = u else for_break xs body u = Some t"
    by (auto split: option.splits if_splits)
  from Cons.prems(3)[OF _ Cons.prems(2) u(1)] obtain v where v: "body x w = Some (b, v)" "R u v"
    by auto
  show ?case
  proof (cases b)
    case True
    then show ?thesis using u(2) v by simp
  next
    case False
    then have "for_break xs body u = Some t" using u(2) by simp
    then have "\<exists>w'. for_break xs body v = Some w' \<and> R t w'"
      by (rule Cons.IH[OF _ v(2)]) (use Cons.prems(3) in auto)
    then show ?thesis using v(1) False by simp
  qed
qed

lemma for_loop_pres_idx:
  assumes "for_loop [0..<n] body s = Some t" and "I 0 s"
    and "\<And>i u u'. i < n \<Longrightarrow> I i u \<Longrightarrow> body i u = Some u' \<Longrightarrow> I (Suc i) u'"
  shows "I n t"
  using assms(1,3)
proof (induction n arbitrary: t)
  case 0
  then show ?case using assms(2) by simp
next
  case (Suc n)
  from Suc.prems(1) obtain u where u: "for_loop [0..<n] body s = Some u" "body n u = Some t"
    by (auto simp: for_loop_append bind_eq_Some_conv split: option.splits)
  have "I n u" by (rule Suc.IH[OF u(1)]) (use Suc.prems(2) in auto)
  then show ?case using Suc.prems(2)[of n u t] u(2) by simp
qed

lemma for_loop_None:
  assumes "i \<in> set xs" and "\<And>u. body i u = None"
  shows "for_loop xs body s = None"
  using assms(1)
proof (induction xs arbitrary: s)
  case Nil
  then show ?case by simp
next
  case (Cons x xs)
  then show ?case using assms(2) by (cases "body x s") auto
qed

section \<open>Verification: rendering pipeline\<close>

subsection \<open>Auxiliary facts\<close>

lemma u8_mem: "(v::8 word) \<in> set (map word_of_nat [0..<256])"
proof -
  have lt: "unat v < 256" using unsigned_less[of v] by simp
  have "v = word_of_nat (unat v)" by simp
  moreover have "unat v \<in> {0..<256}" using lt by simp
  ultimately have "v \<in> word_of_nat ` {0..<256}" by (rule image_eqI)
  then show ?thesis by (simp only: set_map set_upt)
qed

lemma u8_cases: "list_all P (map word_of_nat [0..<256]) \<Longrightarrow> P (v::8 word)"
  using u8_mem[of v] unfolding list_all_iff by blast

lemma encode_ok_all: "list_all encode_ok (map word_of_nat [0..<256])"
  by code_simp

lemma encode_tbl_nth:
  "encode_tbl (init_encode_tbl s) ! unat (v::8 word) = encode_value (ucast v)"
proof -
  have lt: "unat v < 256" using unsigned_less[of v] by simp
  have "encode_tbl (init_encode_tbl s) ! unat v = encode_value (word_of_nat (unat v))"
    using lt by (simp add: init_encode_tbl_def)
  also have "(word_of_nat (unat v) :: 16 word) = ucast v" by simp
  finally show ?thesis .
qed

lemma ceil_div_le: "0 < k \<Longrightarrow> (n + k - 1) div k \<le> n" for n k :: nat
proof -
  assume k: "0 < k"
  have "n \<le> n * k" using k by simp
  then have "n + k - 1 < n * k + k" using k by linarith
  then have "n + k - 1 < Suc n * k" by simp
  then have "(n + k - 1) div k < Suc n" by (rule less_mult_imp_div_less)
  then show ?thesis by simp
qed

lemma framebuffer_init_encode_tbl [simp]: "framebuffer (init_encode_tbl s) = framebuffer s"
  by (simp add: init_encode_tbl_def)

lemma framebuffer_init_color_map [simp]: "framebuffer (init_color_map s) = framebuffer s"
  by (simp add: init_color_map_def)

lemma render_ready_init_encode_tbl [simp]: "render_ready (init_encode_tbl s) = render_ready s"
  by (simp add: init_encode_tbl_def)

lemma render_ready_init_color_map [simp]: "render_ready (init_color_map s) = render_ready s"
  by (simp add: init_color_map_def)

lemma init_render_4_1:
  "fst (init_render 4 1 (Some [0]) True True g render_boot) \<and>
   framebuffer (snd (init_render 4 1 (Some [0]) True True g render_boot)) =
     Some (replicate 4 \<lparr>rgb_r = 0, rgb_g = 0, rgb_b = 0\<rparr>)"
  by (simp add: init_render_def Let_def free_buffers_def LED_RENDER_MAX_ALLOC_def
        render_boot_def)

lemma init_render_0:
  "init_render 0 sc h a b g s = (False, s\<lparr>render_ready := False\<rparr>)"
  by (simp add: init_render_def)

lemma add_pixel_color_0:
  "framebuffer s = Some (replicate 4 \<lparr>rgb_r = 0, rgb_g = 0, rgb_b = 0\<rparr>) \<Longrightarrow>
   map_option framebuffer (add_pixel_color 0 1 0 0 s) =
     Some (Some (\<lparr>rgb_r = 1, rgb_g = 0, rgb_b = 0\<rparr> #
                 replicate 3 \<lparr>rgb_r = 0, rgb_g = 0, rgb_b = 0\<rparr>))"
  by (simp add: add_pixel_color_def fb_read_def fb_write_def nth_opt_def upd_opt_def qadd8_def
       numeral_3_eq_3 eval_nat_numeral(2))

text \<open>The two writers that do carry the guard return the state as it was.\<close>

lemma set_pixel_color_guard:
  "\<not> render_ready s \<or> pixels_total s \<le> idx \<Longrightarrow> set_pixel_color idx cr cg cb s = Some s"
  by (simp add: set_pixel_color_def)

lemma set_all_pixels_color_guard:
  "\<not> render_ready s \<Longrightarrow> set_all_pixels_color cr cg cb s = Some s"
  by (simp add: set_all_pixels_color_def)

subsection \<open>Claims\<close>

text \<open>
  C1. The claim: every pixel-write call is a no-op when the pipeline is not initialised or
  the index is out of range. \<open>add_pixel_color\<close> and \<open>subtract_pixel_color\<close> have no such
  guard. The run below initialises four pixels, then calls \<open>init_render\<close> with zero
  pixels, which fails and leaves \<open>render_ready\<close> false with the old framebuffer still
  allocated; \<open>add_pixel_color(0, 1, 0, 0)\<close> then writes pixel 0.
\<close>

theorem add_pixel_color_unguarded:
  "(let (ok1, s1) = init_render 4 1 (Some [0]) True True (replicate 256 0) render_boot;
        (ok2, s2) = init_render 0 1 (Some [0]) True True (replicate 256 0) s1
    in ok1 \<and> \<not> ok2 \<and> \<not> render_ready s2 \<and>
       framebuffer s2 = Some (replicate 4 \<lparr>rgb_r = 0, rgb_g = 0, rgb_b = 0\<rparr>) \<and>
       map_option framebuffer (add_pixel_color 0 1 0 0 s2) =
         Some (Some (\<lparr>rgb_r = 1, rgb_g = 0, rgb_b = 0\<rparr> #
                     replicate 3 \<lparr>rgb_r = 0, rgb_g = 0, rgb_b = 0\<rparr>)))"
proof -
  let ?s1 = "snd (init_render 4 1 (Some [0]) True True (replicate 256 0) render_boot)"
  let ?s2 = "?s1\<lparr>render_ready := False\<rparr>"
  have a: "fst (init_render 4 1 (Some [0]) True True (replicate 256 0) render_boot)"
    and b: "framebuffer ?s1 = Some (replicate 4 \<lparr>rgb_r = 0, rgb_g = 0, rgb_b = 0\<rparr>)"
    using init_render_4_1[of "replicate 256 0"] by blast+
  have c: "framebuffer ?s2 = Some (replicate 4 \<lparr>rgb_r = 0, rgb_g = 0, rgb_b = 0\<rparr>)"
    using b by simp
  have d: "map_option framebuffer (add_pixel_color 0 1 0 0 ?s2) =
         Some (Some (\<lparr>rgb_r = 1, rgb_g = 0, rgb_b = 0\<rparr> #
                     replicate 3 \<lparr>rgb_r = 0, rgb_g = 0, rgb_b = 0\<rparr>))"
    using c by (rule add_pixel_color_0)
  have e: "\<not> render_ready ?s2" by simp
  show ?thesis
    unfolding Let_def case_prod_beta init_render_0 fst_conv snd_conv
    using a c d e by blast
qed

text \<open>
  C5. For every byte \<open>v\<close>, the entry \<open>encode_tbl[v]\<close> written by \<open>init_encode_tbl\<close> fits in
  24 bits, its eight 3-bit groups read from the most significant down are \<open>110\<close> where the
  bit of \<open>v\<close> (bit 7 first) is one and \<open>100\<close> where it is zero, and decoding the groups
  gives \<open>v\<close> back; so two bytes with the same code are equal.
\<close>

theorem encode_tbl_roundtrip:
  "encode_ok v \<and>
   encode_tbl (init_encode_tbl s) ! unat v = encode_value (ucast v) \<and>
   spec_decode (encode_tbl (init_encode_tbl s) ! unat v) = Some v \<and>
   inj (\<lambda>w :: 8 word. encode_tbl (init_encode_tbl s) ! unat w)"
proof -
  have ok: "encode_ok w" for w
    using encode_ok_all by (rule u8_cases)
  have dec: "spec_decode (encode_tbl (init_encode_tbl s) ! unat w) = Some w" for w :: "8 word"
    using ok[of w] by (simp add: encode_ok_def Let_def encode_tbl_nth)
  have "inj (\<lambda>w :: 8 word. encode_tbl (init_encode_tbl s) ! unat w)"
  proof (rule injI)
    fix x y :: "8 word"
    assume "encode_tbl (init_encode_tbl s) ! unat x = encode_tbl (init_encode_tbl s) ! unat y"
    then have "spec_decode (encode_tbl (init_encode_tbl s) ! unat x) =
               spec_decode (encode_tbl (init_encode_tbl s) ! unat y)"
      by (rule arg_cong)
    then have "Some x = Some y" by (simp only: dec)
    then show "x = y" by (simp only: option.inject)
  qed
  then show ?thesis using ok[of v] dec[of v] encode_tbl_nth[of s v] by blast
qed

text \<open>
  C8. \<open>init_render\<close> returns false when \<open>total_pixels\<close> is zero, \<open>strip_count\<close> is zero,
  \<open>spi_handles\<close> is NULL, or the framebuffer bytes plus
  \<open>strip_count * (ceil(total_pixels / strip_count) * 9 + 1)\<close> strip-buffer bytes exceed
  \<open>LED_RENDER_MAX_ALLOC\<close>; and \<open>render_ready\<close> is false afterwards. The ceiling is the
  source's \<open>(total + strips - 1) / strips\<close>.
\<close>

theorem init_render_failure:
  assumes "total_pixels = 0 \<or> strip_count = 0 \<or> spi_handles = None \<or>
           LED_RENDER_MAX_ALLOC <
             3 * unat total_pixels +
             unat strip_count *
               ((unat total_pixels + unat strip_count - 1) div unat strip_count * 9 + 1)"
  shows "fst (init_render total_pixels strip_count spi_handles fb_ok sb_ok gamma s) = False \<and>
         render_ready
           (snd (init_render total_pixels strip_count spi_handles fb_ok sb_ok gamma s)) = False"
proof -
  have pps: "unat (word_of_nat
                ((unat total_pixels + unat strip_count - 1) div unat strip_count) :: 16 word)
        = (unat total_pixels + unat strip_count - 1) div unat strip_count"
    if "strip_count \<noteq> 0"
  proof -
    have k: "0 < unat strip_count" using that by (simp add: unat_gt_0)
    have "(unat total_pixels + unat strip_count - 1) div unat strip_count \<le> unat total_pixels"
      using k by (rule ceil_div_le)
    moreover have "unat total_pixels < 2 ^ 16" using unsigned_less[of total_pixels] by simp
    ultimately show ?thesis by (simp add: unat_of_nat)
  qed
  show ?thesis
    using assms pps
    by (auto simp: init_render_def Let_def free_buffers_def LED_RENDER_MAX_ALLOC_def)
qed

theorem init_render_failure_witness:
  "LED_RENDER_MAX_ALLOC < 3 * unat (2000 :: 16 word) + unat (1 :: 8 word) *
       ((unat (2000 :: 16 word) + unat (1 :: 8 word) - 1) div unat (1 :: 8 word) * 9 + 1) \<and>
   fst (init_render 2000 1 (Some [0]) True True (replicate 256 0) render_boot) = False \<and>
   render_ready (snd (init_render 2000 1 (Some [0]) True True (replicate 256 0) render_boot))
     = False"
  using init_render_failure [of 2000 1 "Some [0]" True True "replicate 256 0" render_boot]
  by (simp add: LED_RENDER_MAX_ALLOC_def)

section \<open>Verification: mapping layer\<close>

subsection \<open>Loops and closed forms\<close>

lemma led_base_Suc:
  "k < length leds \<Longrightarrow> led_base leds (Suc k) = led_base leds k + ucast (leds ! k)"
  by (simp add: led_base_def take_Suc_conv_app_nth)

lemma strip_base_eq:
  assumes "unat phys \<le> length leds"
  shows "strip_base leds phys = Some (led_base leds (unat phys))"
  unfolding strip_base_def
proof (rule for_loop_fun[where g = "led_base leds"])
  show "led_base leds 0 = 0" by (simp add: led_base_def)
next
  fix i assume "i < unat phys"
  then have "i < length leds" using assms by simp
  then show "map_option (\<lambda>n. led_base leds i + ucast n) (nth_opt leds i) = Some (led_base leds (Suc i))"
    by (simp add: nth_opt_def led_base_Suc)
qed


lemma write_run:
  fixes pxi :: "16 word" and h :: "nat \<Rightarrow> 'a" and pmi :: "'a list"
  assumes "unat pxi + c \<le> length pmi" and "length pmi < 2 ^ 16"
  shows "for_loop [0..<c]
           (\<lambda>i (px, pm). map_option (\<lambda>pm'. (px + 1, pm')) (upd_opt pm (unat px) (h i)))
           (pxi, pmi)
         = Some (pxi + word_of_nat c,
                 take (unat pxi) pmi @ map h [0..<c] @ drop (unat pxi + c) pmi)"
proof (rule for_loop_fun[where g = "\<lambda>i. (pxi + word_of_nat i,
                 take (unat pxi) pmi @ map h [0..<i] @ drop (unat pxi + i) pmi)"])
  show "(pxi + word_of_nat 0, take (unat pxi) pmi @ map h [0..<0] @ drop (unat pxi + 0) pmi)
        = (pxi, pmi)" by simp
next
  fix i assume i: "i < c"
  have lt: "unat pxi + i < length pmi" using i assms(1) by simp
  then have small: "unat pxi + i < 2 ^ 16" using assms(2) by simp
  have "unat (pxi + word_of_nat i) = (unat pxi + i) mod 2 ^ 16"
    by (simp add: unat_word_ariths unat_of_nat mod_add_right_eq)
  then have u: "unat (pxi + word_of_nat i) = unat pxi + i" using small by simp
  have len: "length (take (unat pxi) pmi) = unat pxi" using lt by simp
  have d: "drop (unat pxi + i) pmi = pmi ! (unat pxi + i) # drop (unat pxi + Suc i) pmi"
    using lt by (simp add: Cons_nth_drop_Suc)
  have "(take (unat pxi) pmi @ map h [0..<i] @ drop (unat pxi + i) pmi)[unat pxi + i := h i]
        = take (unat pxi) pmi @ map h [0..<Suc i] @ drop (unat pxi + Suc i) pmi"
    using len by (simp add: d list_update_append)
  moreover have "unat pxi + i < length (take (unat pxi) pmi @ map h [0..<i] @ drop (unat pxi + i) pmi)"
    using lt by simp
  ultimately show "(case (pxi + word_of_nat i,
                 take (unat pxi) pmi @ map h [0..<i] @ drop (unat pxi + i) pmi) of
           (px, pm) \<Rightarrow> map_option (\<lambda>pm'. (px + 1, pm')) (upd_opt pm (unat px) (h i)))
        = Some (pxi + word_of_nat (Suc i),
                 take (unat pxi) pmi @ map h [0..<Suc i] @ drop (unat pxi + Suc i) pmi)"
    by (simp add: upd_opt_def u add.assoc)
qed

lemma sum_unat_bound: "sum_list (map unat (xs :: 8 word list)) \<le> 255 * length xs"
proof (induction xs)
  case Nil
  then show ?case by simp
next
  case (Cons x xs)
  have "unat x < 256" using unsigned_less[of x] by simp
  then show ?case using Cons by simp
qed

lemma length_pixel_block [simp]: "length (pixel_block leds emap fmap l) = unat (leds ! l)"
  by (simp add: pixel_block_def)

lemma length_concat_blocks:
  "l \<le> length leds \<Longrightarrow>
   length (concat (map (pixel_block leds emap fmap) [0..<l])) = sum_list (map unat (take l leds))"
proof (induction l)
  case 0
  then show ?case by simp
next
  case (Suc l)
  then show ?case by (simp add: take_Suc_conv_app_nth)
qed


lemma take_sum_le:
  "sum_list (map unat (take l (leds :: 8 word list))) \<le> sum_list (map unat leds)"
proof -
  have "sum_list (map unat leds) = sum_list (map unat (take l leds)) + sum_list (map unat (drop l leds))"
    by (metis append_take_drop_id map_append sum_list_append)
  then show ?thesis by simp
qed

lemma pixel_map_edge_step:
  assumes L: "leds_per_edge s = Some leds" and M: "edge_map s = Some emap"
    and Fm: "flip_map s = Some fmap"
    and len: "length emap = length leds" "length fmap = length leds"
    and l: "l < length leds" and ph: "unat (emap ! l) \<le> length leds"
    and pm: "length pm0 = sum_list (map unat leds)" and small: "length leds < 256"
  shows "pixel_map_edge s l
           (word_of_nat (sum_list (map unat (take l leds))),
            concat (map (pixel_block leds emap fmap) [0..<l]) @
              drop (sum_list (map unat (take l leds))) pm0)
         = Some (word_of_nat (sum_list (map unat (take (Suc l) leds))),
            concat (map (pixel_block leds emap fmap) [0..<Suc l]) @
              drop (sum_list (map unat (take (Suc l) leds))) pm0)"
proof -
  let ?S = "\<lambda>k. sum_list (map unat (take k leds))"
  let ?B = "pixel_block leds emap fmap"
  let ?pm = "concat (map ?B [0..<l]) @ drop (?S l) pm0"
  let ?h = "\<lambda>i. \<lparr>pm_edge = word_of_nat l,
               pm_phys = led_base leds (unat (emap ! l)) +
                 (if fmap ! l then ucast (leds ! l) - 1 - word_of_nat i else word_of_nat i)\<rparr>"
  have tot: "length pm0 < 2 ^ 16"
  proof -
    have "length pm0 \<le> 255 * length leds" using pm sum_unat_bound[of leds] by simp
    also have "\<dots> < 255 * 256" using small by simp
    finally show ?thesis by simp
  qed
  have SSuc: "?S (Suc l) = ?S l + unat (leds ! l)" using l by (simp add: take_Suc_conv_app_nth)
  have Sle: "?S (Suc l) \<le> length pm0" using pm take_sum_le[of "Suc l" leds] by simp
  have Sl: "?S l \<le> length pm0" using pm take_sum_le[of l leds] by simp
  have u: "unat (word_of_nat (?S l) :: 16 word) = ?S l"
    using Sl tot by (simp add: unat_of_nat)
  have lc: "length (concat (map ?B [0..<l])) = ?S l"
    using l by (simp add: length_concat_blocks)
  have lpm: "length ?pm = length pm0" using lc Sl by simp
  have a: "unat (word_of_nat (?S l) :: 16 word) + unat (leds ! l) \<le> length ?pm"
    using u lpm Sle SSuc by simp
  have b: "length ?pm < 2 ^ 16" using lpm tot by simp
  note run = write_run[where pxi = "word_of_nat (?S l)" and pmi = ?pm
            and c = "unat (leds ! l)" and h = ?h, OF a b]
  have t: "take (?S l) ?pm = concat (map ?B [0..<l])" using lc by simp
  have d: "drop (?S l + unat (leds ! l)) ?pm = drop (?S (Suc l)) pm0"
    using lc SSuc by (simp add: add.commute)
  have blk: "map ?h [0..<unat (leds ! l)] = ?B l" by (simp add: pixel_block_def)
  show ?thesis
    unfolding pixel_map_edge_def
    using L M Fm l len ph
    by (simp add: nth_opt_def strip_base_eq Let_def run u lc blk SSuc add.commute)
qed


lemma mapping_build_pixel_map_eq:
  assumes L: "leds_per_edge s = Some leds" and M: "edge_map s = Some emap"
    and Fm: "flip_map s = Some fmap" and P: "pixel_map s = Some pm0"
    and len: "length leds = unat (edge_cnt s)" "length emap = length leds"
             "length fmap = length leds"
    and ph: "list_all (\<lambda>x. unat x < unat (edge_cnt s)) emap"
    and pm: "length pm0 = sum_list (map unat leds)"
  shows "mapping_build_pixel_map s =
           Some (s\<lparr>pixel_map :=
             Some (concat (map (pixel_block leds emap fmap) [0..<unat (edge_cnt s)]))\<rparr>)"
proof -
  let ?n = "unat (edge_cnt s)"
  let ?g = "\<lambda>l. (word_of_nat (sum_list (map unat (take l leds))) :: 16 word,
            concat (map (pixel_block leds emap fmap) [0..<l]) @
              drop (sum_list (map unat (take l leds))) pm0)"
  have small: "length leds < 256" using len(1) unsigned_less[of "edge_cnt s"] by simp
  have "for_loop [0..<?n] (pixel_map_edge s) (0, pm0) = Some (?g ?n)"
  proof (rule for_loop_fun[where g = ?g])
    show "?g 0 = (0, pm0)" by simp
  next
    fix l assume l: "l < ?n"
    then have l': "l < length leds" using len by simp
    have "emap ! l \<in> set emap" using l len by simp
    then have "unat (emap ! l) \<le> length leds"
      using ph len by (auto simp: list_all_iff dest: less_imp_le)
    then show "pixel_map_edge s l (?g l) = Some (?g (Suc l))"
      using pixel_map_edge_step[OF L M Fm len(2,3) l' _ pm small] by simp
  qed
  then show ?thesis
    using L P len pm by (simp add: mapping_build_pixel_map_def)
qed


lemma build_edge_index_map_eq:
  assumes L: "leds_per_edge s = Some leds" and M: "edge_map s = Some emap"
    and Fm: "flip_map s = Some fmap" and I: "edge_info s = Some infos"
    and len: "length leds = unat (edge_cnt s)" "length emap = length leds"
             "length fmap = length leds" "length infos = length leds"
    and ph: "list_all (\<lambda>x. unat x < unat (edge_cnt s)) emap"
  shows "build_edge_index_map s =
           Some (s\<lparr>edge_info :=
             Some (map (edge_info_of leds emap fmap) [0..<unat (edge_cnt s)])\<rparr>)"
proof -
  let ?n = "unat (edge_cnt s)"
  let ?g = "\<lambda>e. s\<lparr>edge_info :=
              Some (map (edge_info_of leds emap fmap) [0..<e] @ drop e infos)\<rparr>"
  have "for_loop [0..<?n] edge_index_entry s = Some (?g ?n)"
  proof (rule for_loop_fun[where g = ?g])
    show "?g 0 = s" using I by simp
  next
    fix e assume e: "e < ?n"
    have "emap ! e \<in> set emap" using e len by simp
    then have ph': "unat (emap ! e) \<le> length leds"
      using ph len by (auto simp: list_all_iff dest: less_imp_le)
    have d: "drop e infos = infos ! e # drop (Suc e) infos"
      using e len by (simp add: Cons_nth_drop_Suc)
    have upd: "(map (edge_info_of leds emap fmap) [0..<e] @ drop e infos)[e := x]
        = map (edge_info_of leds emap fmap) [0..<e] @ x # drop (Suc e) infos" for x
      by (simp add: d list_update_append)
    show "edge_index_entry e (?g e) = Some (?g (Suc e))"
      using L M Fm e len ph'
      by (simp add: edge_index_entry_def nth_opt_def upd_opt_def strip_base_eq Let_def upd
            edge_info_of_def)
  qed
  then show ?thesis
    using len by (simp add: build_edge_index_map_def)
qed

lemma update_mappings_eq:
  assumes "mapping_wf s"
  shows "update_mappings s =
     Some (s\<lparr>pixel_map := Some (concat (map (pixel_block (the (leds_per_edge s))
                     (the (edge_map s)) (the (flip_map s))) [0..<unat (edge_cnt s)])),
               edge_info := Some (map (edge_info_of (the (leds_per_edge s))
                     (the (edge_map s)) (the (flip_map s))) [0..<unat (edge_cnt s)])\<rparr>)"
proof -
  from assms obtain leds emap fmap pm0 info0 where
    L: "leds_per_edge s = Some leds" and M: "edge_map s = Some emap"
    and Fm: "flip_map s = Some fmap" and P: "pixel_map s = Some pm0"
    and I: "edge_info s = Some info0"
    and len: "length leds = unat (edge_cnt s)" "length emap = unat (edge_cnt s)"
             "length fmap = unat (edge_cnt s)" "length info0 = unat (edge_cnt s)"
    and pm: "length pm0 = sum_list (map unat leds)"
    and ph: "list_all (\<lambda>x. unat x < unat (edge_cnt s)) emap"
    by (auto simp: mapping_wf_def split: option.splits)
  let ?s1 = "s\<lparr>pixel_map :=
             Some (concat (map (pixel_block leds emap fmap) [0..<unat (edge_cnt s)]))\<rparr>"
  have a: "mapping_build_pixel_map s = Some ?s1"
    using mapping_build_pixel_map_eq[OF L M Fm P len(1) _ _ ph pm] len by simp
  have b: "build_edge_index_map ?s1 =
           Some (?s1\<lparr>edge_info :=
             Some (map (edge_info_of leds emap fmap) [0..<unat (edge_cnt ?s1)])\<rparr>)"
    by (rule build_edge_index_map_eq[where infos = info0]) (use L M Fm I len ph in simp_all)
  show ?thesis
    using a b L M Fm by (simp add: update_mappings_def)
qed

lemma word8_of_nat_eq:
  "k < 256 \<Longrightarrow> e < 256 \<Longrightarrow> (word_of_nat k :: 8 word) = word_of_nat e \<longleftrightarrow> k = e"
proof
  assume k: "k < 256" and e: "e < 256" and eq: "(word_of_nat k :: 8 word) = word_of_nat e"
  have "unat (word_of_nat k :: 8 word) = k" using k by (simp add: unat_of_nat)
  moreover have "unat (word_of_nat e :: 8 word) = e" using e by (simp add: unat_of_nat)
  moreover have "unat (word_of_nat k :: 8 word) = unat (word_of_nat e :: 8 word)"
    using eq by (rule arg_cong)
  ultimately show "k = e" by linarith
next
  assume "k = e"
  then show "(word_of_nat k :: 8 word) = word_of_nat e" by (rule arg_cong)
qed

lemma filter_pixel_block:
  assumes "k < 256" "e < 256"
  shows "filter (\<lambda>m. pm_edge m = word_of_nat e) (pixel_block leds emap fmap k)
         = (if k = e then pixel_block leds emap fmap k else [])"
  using assms by (auto simp: pixel_block_def filter_map comp_def word8_of_nat_eq)

lemma filter_concat_blocks:
  assumes "n \<le> 256" "e < 256"
  shows "filter (\<lambda>m. pm_edge m = word_of_nat e)
           (concat (map (pixel_block leds emap fmap) [0..<n]))
         = (if e < n then pixel_block leds emap fmap e else [])"
  using assms(1)
proof (induction n)
  case 0
  then show ?case by simp
next
  case (Suc n)
  then show ?case using assms(2) by (auto simp: filter_pixel_block)
qed

lemma sint_minus_one8: "sint (- 1 :: 8 word) = - 1"
  by simp

lemma edge_led_phys_block:
  assumes "i < unat (leds ! e)"
  shows "edge_led_phys (edge_info_of leds emap fmap e) i
         = pm_phys (pixel_block leds emap fmap e ! i)"
  using assms by (simp add: edge_led_phys_def edge_info_of_def pixel_block_def)

subsection \<open>Claims\<close>

text \<open>
  C3. The claim: after \<open>update_mappings\<close>, for every permutation \<open>edge_map\<close>, the \<open>phys\<close>
  fields of \<open>pixel_map\<close> are a bijection onto \<open>[0, total_pixels)\<close>. Both builders take
  the start of strip block \<open>k\<close> to be the sum of \<open>leds_per_edge[i]\<close> for \<open>i < k\<close>, that
  is of the LED counts of the logical edges \<open>0..k-1\<close>, not of the edges that occupy the
  blocks \<open>0..k-1\<close>. With LED counts 1, 24, 24 and the first two blocks swapped, the 49
  entries carry the physical indices 1, 0..23, 25..48: index 1 twice and index 24 never.
\<close>

theorem pixel_map_not_bijective:
  "mapping_wf bad_mapping \<and>
   map_option (\<lambda>s'. map_option (map (\<lambda>m. unat (pm_phys m))) (pixel_map s'))
     (update_mappings bad_mapping)
   = Some (Some ([1] @ [0..<24] @ [25..<49]))"
  by code_simp






text \<open>
  C7. In a mapping state as \<open>init_mapping\<close> leaves it, \<open>update_mappings\<close> is defined,
  and afterwards, for every logical edge \<open>e\<close>, \<open>pixel_map\<close> holds exactly
  \<open>edge_info[e].count\<close> entries whose \<open>edge\<close> field is \<open>e\<close>, and the \<open>i\<close>-th of them (in
  array order) has the \<open>phys\<close> field \<open>edge_info[e].start + i * edge_info[e].step\<close>.
\<close>

theorem edge_info_agrees_with_pixel_map:
  assumes "mapping_wf s"
  shows "\<exists>s' pm info.
           update_mappings s = Some s' \<and> pixel_map s' = Some pm \<and> edge_info s' = Some info \<and>
           (\<forall>e < unat (edge_cnt s').
              length (filter (\<lambda>m. pm_edge m = word_of_nat e) pm) = unat (ei_count (info ! e)) \<and>
              (\<forall>i < unat (ei_count (info ! e)).
                 edge_led_phys (info ! e) i =
                 pm_phys (filter (\<lambda>m. pm_edge m = word_of_nat e) pm ! i)))"
proof -
  from assms obtain leds emap fmap where
    L: "leds_per_edge s = Some leds" and M: "edge_map s = Some emap"
    and Fm: "flip_map s = Some fmap"
    by (auto simp: mapping_wf_def split: option.splits)
  let ?n = "unat (edge_cnt s)"
  let ?pm = "concat (map (pixel_block leds emap fmap) [0..<?n])"
  let ?info = "map (edge_info_of leds emap fmap) [0..<?n]"
  let ?s' = "s\<lparr>pixel_map := Some ?pm, edge_info := Some ?info\<rparr>"
  have u: "update_mappings s = Some ?s'"
    using update_mappings_eq[OF assms] L M Fm by simp
  have n: "?n < 256" using unsigned_less[of "edge_cnt s"] by simp
  have "length (filter (\<lambda>m. pm_edge m = word_of_nat e) ?pm) = unat (ei_count (?info ! e)) \<and>
        (\<forall>i < unat (ei_count (?info ! e)).
           edge_led_phys (?info ! e) i =
           pm_phys (filter (\<lambda>m. pm_edge m = word_of_nat e) ?pm ! i))" if e: "e < ?n" for e
  proof -
    have f: "filter (\<lambda>m. pm_edge m = word_of_nat e) ?pm = pixel_block leds emap fmap e"
      using filter_concat_blocks[of ?n e leds emap fmap] n e by simp
    have i: "?info ! e = edge_info_of leds emap fmap e" using e by simp
    have c: "unat (ei_count (edge_info_of leds emap fmap e)) = unat (leds ! e)"
      by (simp add: edge_info_of_def unsigned_ucast_eq take_bit_nat_eq_self unsigned_less[of "leds ! e", simplified] less_trans[OF unsigned_less[of "leds ! e", simplified]])
    show ?thesis
      unfolding f i c using edge_led_phys_block[of _ leds e emap fmap] by simp
  qed
  then show ?thesis using u by simp
qed

theorem edge_info_agrees_with_pixel_map_witness:
  "mapping_wf demo_mapping \<and>
   (\<exists>s' pm info.
           update_mappings demo_mapping = Some s' \<and> pixel_map s' = Some pm \<and>
           edge_info s' = Some info \<and>
           (\<forall>e < unat (edge_cnt s').
              length (filter (\<lambda>m. pm_edge m = word_of_nat e) pm) = unat (ei_count (info ! e)) \<and>
              (\<forall>i < unat (ei_count (info ! e)).
                 edge_led_phys (info ! e) i =
                 pm_phys (filter (\<lambda>m. pm_edge m = word_of_nat e) pm ! i))))"
proof -
  have h: "mapping_wf demo_mapping" by code_simp
  show ?thesis using h edge_info_agrees_with_pixel_map[OF h] by blast
qed

section \<open>Verification: topology engine\<close>

subsection \<open>Normalisation and the seeds\<close>

lemma has_faces_nth:
  assumes "has_faces p n Fs" "i < length Fs"
  shows "p_fv p ! i = word_of_nat n" and "k < n \<Longrightarrow> p_f p ! i ! k = Fs ! i ! k"
proof -
  have a: "map (\<lambda>i. p_fv p ! i) [0..<length Fs] ! i = replicate (length Fs) (word_of_nat n) ! i"
    using assms(1) by (simp only: has_faces_def)
  then show "p_fv p ! i = word_of_nat n" using assms(2) by simp
  have b: "map (\<lambda>i. map (\<lambda>k. p_f p ! i ! k) [0..<n]) [0..<length Fs] ! i ! k = Fs ! i ! k"
    using assms(1) by (simp only: has_faces_def)
  then show "k < n \<Longrightarrow> p_f p ! i ! k = Fs ! i ! k" using assms(2) by simp
qed

lemma build_edges_cube:
  assumes sz: "poly_sized p" and hf: "has_faces p 3 cube_F"
  shows "\<exists>r. build_edges p = Some r \<and> p_E r = 18 \<and> p_F r = p_F p \<and> p_V r = p_V p"
proof -
  have len: "length (p_fv p) = 120" "length (p_f p) = 120" "length (p_e p) = 300"
    using sz by (simp_all add: poly_sized_def POLY_MAX_F_def POLY_MAX_E_def)
  have rows: "\<And>i. i < 120 \<Longrightarrow> length (p_f p ! i) = 10"
    using sz by (simp add: poly_sized_def list_all_length POLY_MAX_FV_def POLY_MAX_F_def)
  have ne: "p_fv p \<noteq> []" "p_f p \<noteq> []" "\<And>i. i < 120 \<Longrightarrow> p_f p ! i \<noteq> []"
    using len rows by fastforce+
  have F: "unat (p_F p) = 12" using hf by (simp add: has_faces_def cube_F_def)
  have fv: "\<And>i. i < 12 \<Longrightarrow> p_fv p ! i = 3"
    using has_faces_nth(1)[OF hf] by (simp add: cube_F_def)
  have f: "\<And>i k. i < 12 \<Longrightarrow> k < 3 \<Longrightarrow> p_f p ! i ! k = cube_F ! i ! k"
    using has_faces_nth(2)[OF hf] by (simp add: cube_F_def)
  show ?thesis
    unfolding build_edges_def F
    by (simp add: build_edges_step_def nth_opt_def upd_opt_def Let_def
          upt_0_numeral upt_1_numeral POLY_MAX_E_def len rows fv f cube_F_def ne)
qed

lemma poly_radial_normalize_v:
  assumes "unat (p_V p) \<le> length (p_v p)"
  shows "\<exists>vs. poly_radial_normalize p = Some (p\<lparr>p_v := vs\<rparr>) \<and> length vs = length (p_v p)"
proof -
  let ?I = "\<lambda>q. \<exists>vs. q = p\<lparr>p_v := vs\<rparr> \<and> length vs = length (p_v p)"
  have "\<exists>t. poly_radial_normalize p = Some t \<and> ?I t"
    unfolding poly_radial_normalize_def
  proof (rule for_loop_inv[where I = ?I])
    show "?I p" by (rule exI[of _ "p_v p"]) simp
  next
    fix i u assume i: "i \<in> set [0..<unat (p_V p)]" and u: "?I u"
    from u obtain vs where vs: "u = p\<lparr>p_v := vs\<rparr>" "length vs = length (p_v p)" by blast
    have lt: "i < length vs" using i assms vs by simp
    show "\<exists>u'. do {
          x \<leftarrow> nth_opt (p_v u) i;
          let r = v_len x;
          if r > 0 then do {
            vs \<leftarrow> upd_opt (p_v u) i (v_scale x (1 / r));
            Some (u\<lparr>p_v := vs\<rparr>)
          } else Some u
        } = Some u' \<and> ?I u'"
      using lt vs by (auto simp: nth_opt_def upd_opt_def Let_def)
  qed
  then show ?thesis by blast
qed

lemma poly_normalize_v:
  assumes "unat (p_V p) \<le> length (p_v p)"
  shows "\<exists>vs. poly_normalize p = Some (p\<lparr>p_v := vs\<rparr>) \<and> length vs = length (p_v p)"
proof -
  let ?I = "\<lambda>q. \<exists>vs. q = p\<lparr>p_v := vs\<rparr> \<and> length vs = length (p_v p)"
  have "\<exists>t. for_loop [0..<unat (p_V p)]
                (\<lambda>i acc. map_option (\<lambda>x. acc + v_len x) (nth_opt (p_v p) i)) 0 = Some t \<and> True"
    by (rule for_loop_inv) (use assms in \<open>auto simp: nth_opt_def\<close>)
  then obtain total where total: "for_loop [0..<unat (p_V p)]
                (\<lambda>i acc. map_option (\<lambda>x. acc + v_len x) (nth_opt (p_v p) i)) 0 = Some total"
    by blast
  have "\<exists>t. for_loop [0..<unat (p_V p)]
         (\<lambda>i q. do {
            x \<leftarrow> nth_opt (p_v q) i;
            vs \<leftarrow> upd_opt (p_v q) i (v_scale x (1 / (total / real (unat (p_V p)))));
            Some (q\<lparr>p_v := vs\<rparr>)
          }) p = Some t \<and> ?I t"
  proof (rule for_loop_inv[where I = ?I])
    show "?I p" by (rule exI[of _ "p_v p"]) simp
  next
    fix i u assume i: "i \<in> set [0..<unat (p_V p)]" and u: "?I u"
    from u obtain vs where vs: "u = p\<lparr>p_v := vs\<rparr>" "length vs = length (p_v p)" by blast
    have lt: "i < length vs" using i assms vs by simp
    show "\<exists>u'. do {
            x \<leftarrow> nth_opt (p_v u) i;
            vs \<leftarrow> upd_opt (p_v u) i (v_scale x (1 / (total / real (unat (p_V p)))));
            Some (u\<lparr>p_v := vs\<rparr>)
          } = Some u' \<and> ?I u'"
      using lt vs by (auto simp: nth_opt_def upd_opt_def)
  qed
  then show ?thesis unfolding poly_normalize_def using total by (auto simp: Let_def)
qed


lemma poly_prepare_eq:
  assumes "unat (p_V p) \<le> length (p_v p)"
  shows "\<exists>vs. length vs = length (p_v p) \<and>
           poly_prepare p =
             build_edges (p\<lparr>p_v := vs, p_e2f := replicate POLY_MAX_E (0xFF, 0xFF)\<rparr>)"
  using poly_normalize_v[OF assms] by (auto simp: poly_prepare_def)

lemma seed_tri_cube:
  assumes sz: "poly_sized p"
  shows "\<exists>q. seed_tri p cube_V 8 cube_F 12 3 = Some q \<and> poly_sized q \<and>
           p_V q = 8 \<and> has_faces q 3 cube_F"
proof -
  have len: "length (p_v p) = 200" "length (p_fv p) = 120" "length (p_f p) = 120"
    "length (p_e p) = 300" "length (p_e2f p) = 300"
    using sz by (simp_all add: poly_sized_def POLY_MAX_F_def POLY_MAX_E_def POLY_MAX_V_def)
  have rows: "\<And>i. i < 120 \<Longrightarrow> length (p_f p ! i) = 10"
    using sz by (simp add: poly_sized_def list_all_length POLY_MAX_FV_def POLY_MAX_F_def)
  have ne: "p_fv p \<noteq> []" "p_f p \<noteq> []" "\<And>i. i < 120 \<Longrightarrow> p_f p ! i \<noteq> []" "p_v p \<noteq> []"
    using len rows by fastforce+
  show ?thesis
    unfolding seed_tri_def
    apply (simp add: nth_opt_def upd_opt_def Let_def set_face_vertex_def
          upt_0_numeral upt_1_numeral len rows ne cube_F_def cube_V_def)
    apply (simp add: poly_sized_def POLY_MAX_F_def POLY_MAX_E_def POLY_MAX_V_def POLY_MAX_FV_def
         len rows list_all_length nth_list_update has_faces_def upt_0_numeral upt_1_numeral)
    done
qed


lemma poly_init_cube_result:
  assumes sz: "poly_sized p"
  shows "\<exists>r. poly_init_cube p = Some r \<and> p_V r = 8 \<and> p_E r = 18 \<and> p_F r = 12"
proof -
  from seed_tri_cube[OF sz] obtain q where
    q: "seed_tri p cube_V 8 cube_F 12 3 = Some q" "poly_sized q" "p_V q = 8"
       "has_faces q 3 cube_F" by blast
  have lv: "length (p_v q) = 200" using q(2) by (simp add: poly_sized_def POLY_MAX_V_def)
  have "unat (p_V q) \<le> length (p_v q)" using q(3) lv by simp
  from poly_radial_normalize_v[OF this] obtain vs where
    vs: "poly_radial_normalize q = Some (q\<lparr>p_v := vs\<rparr>)" "length vs = length (p_v q)" by blast
  have "unat (p_V (q\<lparr>p_v := vs\<rparr>)) \<le> length (p_v (q\<lparr>p_v := vs\<rparr>))"
    using q(3) lv vs(2) by simp
  from poly_prepare_eq[OF this] obtain ws where
    ws: "length ws = length vs"
        "poly_prepare (q\<lparr>p_v := vs\<rparr>) =
           build_edges (q\<lparr>p_v := ws, p_e2f := replicate POLY_MAX_E (0xFF, 0xFF)\<rparr>)"
    by auto
  let ?q' = "q\<lparr>p_v := ws, p_e2f := replicate POLY_MAX_E (0xFF, 0xFF)\<rparr>"
  have sz': "poly_sized ?q'" using q(2) ws(1) vs(2) by (simp add: poly_sized_def)
  have hf': "has_faces ?q' 3 cube_F" using q(4) by (simp add: has_faces_def)
  from build_edges_cube[OF sz' hf'] obtain r where
    r: "build_edges ?q' = Some r" "p_E r = 18" "p_F r = p_F ?q'" "p_V r = p_V ?q'" by blast
  have F: "p_F q = 12"
    using q(4) by (simp add: has_faces_def cube_F_def)
  show ?thesis
    using q(1) vs(1) ws(2) r q(3) F by (simp add: poly_init_cube_def)
qed

lemma poly_sized_zero: "poly_sized poly_zero"
  by (simp add: poly_sized_def poly_zero_def list_all_iff)

subsection \<open>Claims about the seeds and the dual\<close>

text \<open>
  C2. The claim: after \<open>poly_init_cube(p)\<close>, \<open>V == 8\<close>, \<open>E == 12\<close> and \<open>F == 6\<close>.
  \<open>poly_init_cube\<close> seeds the cube with its 12 triangles, so the edge table holds the 12
  cube edges and the 6 face diagonals: for every buffer \<open>p\<close> the call is defined and leaves
  \<open>V == 8\<close>, \<open>E == 18\<close> and \<open>F == 12\<close>. (The counts of the claim are those of the quad
  seed \<open>poly_init_cube4\<close>.)
\<close>

theorem poly_init_cube_counts:
  assumes "poly_sized p"
  shows "\<exists>r. poly_init_cube p = Some r \<and> p_V r = 8 \<and> p_E r = 18 \<and> p_F r = 12"
  using assms by (rule poly_init_cube_result)

theorem poly_init_cube_counts_witness:
  "poly_sized poly_zero \<and>
   (\<exists>r. poly_init_cube poly_zero = Some r \<and> p_V r = 8 \<and> p_E r = 18 \<and> p_F r = 12)"
  using poly_sized_zero poly_init_cube_counts[OF poly_sized_zero] by blast

theorem poly_init_cube_not_12_edges:
  "\<not> (\<exists>r. poly_init_cube poly_zero = Some r \<and> p_V r = 8 \<and> p_E r = 12 \<and> p_F r = 6)"
proof
  assume "\<exists>r. poly_init_cube poly_zero = Some r \<and> p_V r = 8 \<and> p_E r = 12 \<and> p_F r = 6"
  then obtain r where r: "poly_init_cube poly_zero = Some r" "p_E r = 12" by blast
  from poly_init_cube_result[OF poly_sized_zero] obtain r' where
    r': "poly_init_cube poly_zero = Some r'" "p_E r' = 18" by blast
  from r r' have "(12 :: 8 word) = 18" by simp
  then show False by simp
qed

text \<open>
  C10. When the input has more than \<open>POLY_MAX_V\<close> faces or more than \<open>POLY_MAX_F\<close>
  vertices, \<open>poly_dual\<close> returns at once and the output polyhedron is what it was.
  \<open>poly_init_octahedron\<close> and \<open>poly_init_dodecahedron\<close> end with that call. The
  rhombitruncated constructor does not: after \<open>poly_dual\<close> it runs
  \<open>poly_radial_normalize(p); poly_prepare(p)\<close> on the caller's buffer, so in the guarded
  case its result is the buffer normalised and prepared, and the claim's "leaves the result
  buffer unmodified" fails for it: a zeroed buffer comes back with every \<open>e2f\<close> entry
  \<open>0xFF\<close>.
\<close>

theorem poly_dual_guard:
  assumes "unat (p_F inp) > POLY_MAX_V \<or> unat (p_V inp) > POLY_MAX_F"
  shows "poly_dual inp out = Some out \<and>
         rhombi_finish inp out = do { p2 \<leftarrow> poly_radial_normalize out; poly_prepare p2 }"
  using assms by (auto simp: poly_dual_def rhombi_finish_def)

theorem poly_dual_guard_witness:
  "(unat (p_F (poly_zero\<lparr>p_V := 121\<rparr>)) > POLY_MAX_V \<or>
    unat (p_V (poly_zero\<lparr>p_V := 121\<rparr>)) > POLY_MAX_F) \<and>
   poly_dual (poly_zero\<lparr>p_V := 121\<rparr>) poly_zero = Some poly_zero \<and>
   rhombi_finish (poly_zero\<lparr>p_V := 121\<rparr>) poly_zero =
     do { p2 \<leftarrow> poly_radial_normalize poly_zero; poly_prepare p2 }"
proof -
  have h: "unat (p_F (poly_zero\<lparr>p_V := 121\<rparr>)) > POLY_MAX_V \<or>
           unat (p_V (poly_zero\<lparr>p_V := 121\<rparr>)) > POLY_MAX_F"
    by (simp add: POLY_MAX_F_def)
  show ?thesis using h poly_dual_guard[OF h, of poly_zero] by blast
qed

theorem rhombi_finish_modifies:
  "unat (p_V (poly_zero\<lparr>p_V := 121\<rparr>)) > POLY_MAX_F \<and>
   poly_dual (poly_zero\<lparr>p_V := 121\<rparr>) poly_zero = Some poly_zero \<and>
   p_e2f poly_zero = replicate 300 (0, 0) \<and>
   map_option p_e2f (rhombi_finish (poly_zero\<lparr>p_V := 121\<rparr>) poly_zero) =
     Some (replicate 300 (0xFF, 0xFF))"
  by (simp add: rhombi_finish_def poly_dual_def POLY_MAX_F_def POLY_MAX_E_def
        poly_radial_normalize_def poly_prepare_def poly_normalize_def build_edges_def
        poly_zero_def)

subsection \<open>The edge table\<close>

lemma Edge_eq: "(x :: Edge) = \<lparr>e_a = a, e_b = b\<rparr> \<longleftrightarrow> e_a x = a \<and> e_b x = b"
  by (cases x) simp

lemma edge_lookup_Some:
  assumes "edge_lookup es a b ks d = Some k"
  shows "(k \<in> set ks \<and> k < length es \<and> es ! k = \<lparr>e_a = a, e_b = b\<rparr>) \<or>
         (k = d \<and> (\<forall>j \<in> set ks. j < length es \<and> es ! j \<noteq> \<lparr>e_a = a, e_b = b\<rparr>))"
  using assms
proof (induction ks)
  case Nil
  then show ?case by simp
next
  case (Cons x ks)
  then show ?case
    by (auto simp: nth_opt_def Edge_eq split: if_splits)
qed

lemma edge_lookup_defined:
  assumes "\<forall>j \<in> set ks. j < length es"
  shows "\<exists>k. edge_lookup es a b ks d = Some k"
  using assms by (induction ks) (auto simp: nth_opt_def)


lemma take_Suc_update:
  "n < length xs \<Longrightarrow> take (Suc n) (xs[n := x]) = take n xs @ [x]"
  by (simp add: take_Suc_conv_app_nth)

lemma unat_plus_one_8:
  "unat (w + 1 :: 8 word) = (if unat w = 255 then 0 else unat w + 1)"
proof -
  have "unat w < 256" using unsigned_less[of w] by simp
  then show ?thesis by (auto simp: unat_word_ariths)
qed

lemma build_edges_step_inv:
  assumes st: "build_edges_step f n i u = Some (b, u')" and inv: "edges_inv 300 u"
  shows "edges_inv 300 u'"
proof -
  from st obtain a0 b0 :: "8 word" and e where
    e: "edge_lookup (p_e u) (ucast (if a0 > b0 then b0 else a0))
          (ucast (if a0 > b0 then a0 else b0)) [0..<unat (p_E u)] (unat (p_E u)) = Some e"
    and rest: "(if e = unat (p_E u) \<and> unat (p_E u) \<ge> POLY_MAX_E then Some (True, u)
       else do {
         p1 \<leftarrow> (if e = unat (p_E u)
                 then do {
                   es \<leftarrow> upd_opt (p_e u) e \<lparr>e_a = ucast (if a0 > b0 then b0 else a0),
                                               e_b = ucast (if a0 > b0 then a0 else b0)\<rparr>;
                   Some (u\<lparr>p_e := es, p_E := p_E u + 1\<rparr>)
                 }
                 else Some u);
         (f0, f1) \<leftarrow> nth_opt (p_e2f p1) e;
         e2f' \<leftarrow> upd_opt (p_e2f p1) e
                   (if f0 = 0xFF then (word_of_nat f, f1) else (f0, word_of_nat f));
         Some (False, p1\<lparr>p_e2f := e2f'\<rparr>)
       }) = Some (b, u')"
    by (auto simp: build_edges_step_def Let_def bind_eq_Some_conv)
  let ?new = "\<lparr>e_a = ucast (if a0 > b0 then b0 else a0),
               e_b = ucast (if a0 > b0 then a0 else b0)\<rparr>"
  have len: "length (p_e u) = 300" and dist: "distinct (take (unat (p_E u)) (p_e u))"
    using inv by (simp_all add: edges_inv_def)
  have E: "unat (p_E u) < 256" using unsigned_less[of "p_E u"] by simp
  show ?thesis
  proof (cases "e = unat (p_E u)")
    case False
    then have "p_e u' = p_e u \<and> p_E u' = p_E u"
      using rest by (auto simp: bind_eq_Some_conv)
    then show ?thesis using inv by (simp add: edges_inv_def)
  next
    case True
    have nf: "\<forall>j < unat (p_E u). p_e u ! j \<noteq> ?new"
      using edge_lookup_Some[OF e] True by auto
    have notin: "?new \<notin> set (take (unat (p_E u)) (p_e u))"
      using nf len E by (auto simp: in_set_conv_nth)
    have upd: "p_e u' = (p_e u)[unat (p_E u) := ?new] \<and> p_E u' = p_E u + 1"
      using rest True E len
      by (auto simp: POLY_MAX_E_def upd_opt_def bind_eq_Some_conv split: if_splits)
    show ?thesis
    proof (cases "unat (p_E u) = 255")
      case True
      then show ?thesis using upd len by (simp add: edges_inv_def unat_plus_one_8)
    next
      case False
      then have "unat (p_E u') = Suc (unat (p_E u))" using upd by (simp add: unat_plus_one_8)
      then show ?thesis
        using upd len E dist notin by (simp add: edges_inv_def take_Suc_update)
    qed
  qed
qed

lemma build_edges_inv:
  assumes "build_edges p = Some r" and "length (p_e p) = 300"
  shows "edges_inv 300 r"
  using assms(1) unfolding build_edges_def
proof (rule for_loop_pres[where I = "edges_inv 300"])
  show "edges_inv 300 (p\<lparr>p_E := 0, p_e2f := replicate POLY_MAX_E (0xFF, 0xFF)\<rparr>)"
    using assms(2) by (simp add: edges_inv_def)
next
  fix i u u'
  assume u: "edges_inv 300 u"
    and b: "do { n \<leftarrow> nth_opt (p_fv u) i;
                 for_break [0..<unat n] (build_edges_step i (unat n)) u } = Some u'"
  from b obtain n :: "8 word" where "for_break [0..<unat n] (build_edges_step i (unat n)) u = Some u'"
    by (auto simp: bind_eq_Some_conv)
  then show "edges_inv 300 u'"
    by (rule for_break_pres[where I = "edges_inv 300"]) (use u build_edges_step_inv in blast)+
qed


lemma poly_normalize_frame:
  assumes "poly_normalize q = Some p"
  shows "p_e p = p_e q \<and> p_E p = p_E q"
proof -
  from assms obtain total where
    "for_loop [0..<unat (p_V q)]
         (\<lambda>i u. do {
            x \<leftarrow> nth_opt (p_v u) i;
            vs \<leftarrow> upd_opt (p_v u) i (v_scale x (1 / (total / real (unat (p_V q)))));
            Some (u\<lparr>p_v := vs\<rparr>)
          }) q = Some p"
    by (auto simp: poly_normalize_def Let_def bind_eq_Some_conv)
  then show ?thesis
    by (rule for_loop_pres[where I = "\<lambda>u. p_e u = p_e q \<and> p_E u = p_E q"])
       (auto simp: bind_eq_Some_conv)
qed

lemma poly_prepare_inv:
  assumes "poly_prepare q = Some p" and "length (p_e q) = 300"
  shows "edges_inv 300 p"
proof -
  from assms(1) obtain p1 where p1: "poly_normalize q = Some p1"
    "build_edges (p1\<lparr>p_e2f := replicate POLY_MAX_E (0xFF, 0xFF)\<rparr>) = Some p"
    by (auto simp: poly_prepare_def bind_eq_Some_conv)
  have "length (p_e (p1\<lparr>p_e2f := replicate POLY_MAX_E (0xFF, 0xFF)\<rparr>)) = 300"
    using poly_normalize_frame[OF p1(1)] assms(2) by simp
  then show ?thesis by (rule build_edges_inv[OF p1(2)])
qed

lemma distinct_take_nth:
  assumes "distinct (take n xs)" "j < n" "k < n" "n \<le> length xs" "xs ! j = xs ! k"
  shows "j = k"
  using nth_eq_iff_index_eq[of "take n xs" j k] assms by simp

lemma min_max_word_swap:
  fixes a b :: "8 word"
  shows "(if a > b then b else a) = min a b" and "(if a > b then a else b) = max a b"
  by (auto simp: min_def max_def)

text \<open>
  C6. For a polyhedron \<open>p\<close> that \<open>poly_prepare\<close> returned, and any two vertex indices:
  \<open>poly_find_edge(p, a, b)\<close> and \<open>poly_find_edge(p, b, a)\<close> agree; the call is defined; when
  the pair \<open>(min(a,b), max(a,b))\<close> is among the first \<open>E\<close> entries of the edge list, the
  result is an index below \<open>E\<close> that holds this pair, and the only such index; when it is
  not, the result is \<open>0xFF\<close>.
\<close>

theorem poly_find_edge_correct:
  assumes "poly_sized q" and "poly_prepare q = Some p"
  shows "poly_find_edge p a b = poly_find_edge p b a \<and>
         (\<exists>r. poly_find_edge p a b = Some r \<and>
            (if (\<exists>i < unat (p_E p).
                   p_e p ! i = \<lparr>e_a = ucast (min a b), e_b = ucast (max a b)\<rparr>)
             then unat r < unat (p_E p) \<and>
                  p_e p ! unat r = \<lparr>e_a = ucast (min a b), e_b = ucast (max a b)\<rparr> \<and>
                  (\<forall>j < unat (p_E p).
                     p_e p ! j = \<lparr>e_a = ucast (min a b), e_b = ucast (max a b)\<rparr> \<longrightarrow>
                     j = unat r)
             else r = 0xFF))"
proof -
  let ?X = "\<lparr>e_a = ucast (min a b), e_b = ucast (max a b)\<rparr> :: Edge"
  let ?n = "unat (p_E p)"
  have "length (p_e q) = 300" using assms(1) by (simp add: poly_sized_def POLY_MAX_E_def)
  from poly_prepare_inv[OF assms(2) this] have len: "length (p_e p) = 300"
    and dist: "distinct (take ?n (p_e p))" by (simp_all add: edges_inv_def)
  have n: "?n < 256" using unsigned_less[of "p_E p"] by simp
  have fe: "poly_find_edge p x y =
      map_option word_of_nat
        (edge_lookup (p_e p) (ucast (min x y)) (ucast (max x y)) [0..<?n] 255)" for x y
    by (simp add: poly_find_edge_def Let_def min_max_word_swap)
  have sym: "poly_find_edge p a b = poly_find_edge p b a"
    unfolding fe by (simp only: min.commute[of a b] max.commute[of a b])
  have "\<exists>k. edge_lookup (p_e p) (ucast (min a b)) (ucast (max a b)) [0..<?n] 255 = Some k"
    by (rule edge_lookup_defined) (use len n in auto)
  then obtain k where k: "edge_lookup (p_e p) (ucast (min a b)) (ucast (max a b)) [0..<?n] 255 = Some k"
    by blast
  have r: "poly_find_edge p a b = Some (word_of_nat k)" using k by (simp add: fe)
  from edge_lookup_Some[OF k] consider
    (found) "k < ?n" "p_e p ! k = ?X" |
    (missing) "k = 255" "\<forall>j < ?n. p_e p ! j \<noteq> ?X"
    by auto
  then have main: "(if (\<exists>i < ?n. p_e p ! i = ?X)
             then unat (word_of_nat k :: 8 word) < ?n \<and> p_e p ! unat (word_of_nat k :: 8 word) = ?X \<and>
                  (\<forall>j < ?n. p_e p ! j = ?X \<longrightarrow> j = unat (word_of_nat k :: 8 word))
             else (word_of_nat k :: 8 word) = 0xFF)"
  proof cases
    case found
    have uk: "unat (word_of_nat k :: 8 word) = k" using found(1) n by (simp add: unat_of_nat)
    have uniq: "j = k" if "j < ?n" "p_e p ! j = ?X" for j
      by (rule distinct_take_nth[OF dist that(1) found(1)]) (use len n that found in simp_all)
    have c: "\<exists>i < ?n. p_e p ! i = ?X" using found by blast
    show ?thesis unfolding if_P[OF c] uk using found uniq by blast
  next
    case missing
    then show ?thesis by auto
  qed
  show ?thesis
    by (rule conjI[OF sym], rule exI[of _ "word_of_nat k"], rule conjI[OF r], rule main)
qed

lemma edge_lookup_le:
  assumes "edge_lookup es a b [0..<n] n = Some k"
  shows "k \<le> n"
  using edge_lookup_Some[OF assms] by auto

lemma build_edges_step_defined:
  assumes row: "f < length (p_f u)" "i < length (p_f u ! f)" "(i + 1) mod n < length (p_f u ! f)"
    and len: "length (p_e u) = 300" "length (p_e2f u) = 300"
  shows "\<exists>b u'. build_edges_step f n i u = Some (b, u') \<and> same_faces u u'"
proof -
  let ?a0 = "p_f u ! f ! i" and ?b0 = "p_f u ! f ! ((i + 1) mod n)"
  let ?a = "if ?a0 > ?b0 then ?b0 else ?a0" and ?b = "if ?a0 > ?b0 then ?a0 else ?b0"
  have E: "unat (p_E u) < 256" using unsigned_less[of "p_E u"] by simp
  have "\<exists>k. edge_lookup (p_e u) (ucast ?a) (ucast ?b) [0..<unat (p_E u)] (unat (p_E u)) = Some k"
    by (rule edge_lookup_defined) (use len E in auto)
  then obtain k where k: "edge_lookup (p_e u) (ucast ?a) (ucast ?b) [0..<unat (p_E u)] (unat (p_E u)) = Some k"
    by blast
  have kle: "k < 300" using edge_lookup_le[OF k] E by simp
  show ?thesis
    using row len k kle
    by (auto simp: build_edges_step_def Let_def nth_opt_def upd_opt_def same_faces_def
          split: prod.splits)
qed


lemma same_faces_refl [simp]: "same_faces p p"
  by (simp add: same_faces_def)

lemma same_faces_trans: "same_faces p u \<Longrightarrow> same_faces u w \<Longrightarrow> same_faces p w"
  by (simp add: same_faces_def)

lemma same_faces_sized: "same_faces p u \<Longrightarrow> poly_sized p \<Longrightarrow> poly_sized u"
  by (simp add: same_faces_def poly_sized_def)

lemma same_faces_fit: "same_faces p u \<Longrightarrow> faces_fit p \<Longrightarrow> faces_fit u"
  by (simp add: same_faces_def faces_fit_def)

lemma faces_fit_nth:
  assumes "faces_fit p" "f < unat (p_F p)" "length (p_fv p) = POLY_MAX_F"
  shows "unat (p_fv p ! f) \<le> POLY_MAX_FV"
proof -
  have "f < length (take (unat (p_F p)) (p_fv p))" using assms by (simp add: faces_fit_def)
  moreover have "take (unat (p_F p)) (p_fv p) ! f = p_fv p ! f" using assms(2) by simp
  ultimately show ?thesis using assms(1) by (auto simp: faces_fit_def list_all_length)
qed

lemma build_edges_face_defined:
  assumes sz: "poly_sized u" and fit: "faces_fit u" and f: "f < unat (p_F u)"
  shows "\<exists>u'. do { n \<leftarrow> nth_opt (p_fv u) f;
                    for_break [0..<unat n] (build_edges_step f (unat n)) u } = Some u' \<and>
              same_faces u u'"
proof -
  have F: "unat (p_F u) \<le> 120" using fit by (simp add: faces_fit_def POLY_MAX_F_def)
  have lfv: "length (p_fv u) = 120" using sz by (simp add: poly_sized_def POLY_MAX_F_def)
  have n: "unat (p_fv u ! f) \<le> 10"
    using faces_fit_nth[OF fit f] lfv by (simp add: POLY_MAX_F_def POLY_MAX_FV_def)
  let ?n = "unat (p_fv u ! f)"
  let ?I = "\<lambda>w. same_faces u w"
  have "\<exists>t. for_break [0..<?n] (build_edges_step f ?n) u = Some t \<and> ?I t"
  proof (rule for_break_inv[where I = ?I])
    show "?I u" by simp
  next
    fix i w assume i: "i \<in> set [0..<?n]" and w: "?I w"
    have szw: "poly_sized w" using w sz by (rule same_faces_sized)
    have lens: "length (p_f w) = 120" "length (p_e w) = 300" "length (p_e2f w) = 300"
      using szw by (simp_all add: poly_sized_def POLY_MAX_F_def POLY_MAX_E_def)
    have rowlen: "length (p_f w ! f) = 10"
      using szw f F lens by (simp add: poly_sized_def list_all_length POLY_MAX_FV_def)
    have i': "i < ?n" using i by simp
    then have "(i + 1) mod ?n < ?n" by simp
    then have m: "(i + 1) mod ?n < 10" using n by linarith
    have i10: "i < 10" using i' n by linarith
    have "\<exists>b w'. build_edges_step f ?n i w = Some (b, w') \<and> same_faces w w'"
      by (rule build_edges_step_defined) (use f F lens rowlen i10 m in simp_all)
    then show "\<exists>b w'. build_edges_step f ?n i w = Some (b, w') \<and> ?I w'"
      using w same_faces_trans by blast
  qed
  then show ?thesis using f F lfv by (simp add: nth_opt_def)
qed

lemma build_edges_defined:
  assumes sz: "poly_sized p" and fit: "faces_fit p"
  shows "\<exists>r. build_edges p = Some r \<and> same_faces p r"
proof -
  let ?p0 = "p\<lparr>p_E := 0, p_e2f := replicate POLY_MAX_E (0xFF, 0xFF)\<rparr>"
  let ?I = "\<lambda>u. same_faces p u"
  have "\<exists>t. for_loop [0..<unat (p_F p)]
          (\<lambda>f q. do { n \<leftarrow> nth_opt (p_fv q) f;
                       for_break [0..<unat n] (build_edges_step f (unat n)) q }) ?p0 = Some t \<and> ?I t"
  proof (rule for_loop_inv[where I = ?I])
    show "?I ?p0" using sz by (simp add: same_faces_def poly_sized_def)
  next
    fix f u assume f: "f \<in> set [0..<unat (p_F p)]" and u: "?I u"
    have szu: "poly_sized u" using u sz by (rule same_faces_sized)
    have fitu: "faces_fit u" using u fit by (rule same_faces_fit)
    have fu: "f < unat (p_F u)" using f u by (simp add: same_faces_def)
    from build_edges_face_defined[OF szu fitu fu]
    show "\<exists>u'. do { n \<leftarrow> nth_opt (p_fv u) f;
                    for_break [0..<unat n] (build_edges_step f (unat n)) u } = Some u' \<and> ?I u'"
      using u same_faces_trans by blast
  qed
  then show ?thesis by (simp add: build_edges_def)
qed

lemma poly_prepare_defined:
  assumes sz: "poly_sized p" and fit: "faces_fit p" and V: "unat (p_V p) \<le> POLY_MAX_V"
  shows "\<exists>r vs. poly_prepare p = Some r \<and> length vs = POLY_MAX_V \<and>
           same_faces (p\<lparr>p_v := vs\<rparr>) r"
proof -
  have lv: "length (p_v p) = POLY_MAX_V" using sz by (simp add: poly_sized_def)
  then have "unat (p_V p) \<le> length (p_v p)" using V by simp
  from poly_prepare_eq[OF this] obtain vs where vs: "length vs = length (p_v p)"
    "poly_prepare p = build_edges (p\<lparr>p_v := vs, p_e2f := replicate POLY_MAX_E (0xFF, 0xFF)\<rparr>)"
    by blast
  let ?q = "p\<lparr>p_v := vs, p_e2f := replicate POLY_MAX_E (0xFF, 0xFF)\<rparr>"
  have "poly_sized ?q" using sz vs(1) by (simp add: poly_sized_def)
  moreover have "faces_fit ?q" using fit by (simp add: faces_fit_def)
  ultimately obtain r where r: "build_edges ?q = Some r" "same_faces ?q r"
    using build_edges_defined by blast
  have "same_faces (p\<lparr>p_v := vs\<rparr>) r"
    using r(2) sz by (simp add: same_faces_def poly_sized_def)
  then show ?thesis using vs r(1) lv by auto
qed

lemma tetra_seed_ok: "poly_sized tetra_seed \<and> faces_fit tetra_seed \<and> unat (p_V tetra_seed) \<le> POLY_MAX_V"
  by code_simp

theorem poly_find_edge_correct_witness:
  "poly_sized tetra_seed \<and>
   poly_prepare tetra_seed = Some (the (poly_prepare tetra_seed)) \<and>
   poly_find_edge (the (poly_prepare tetra_seed)) 0 3 =
     poly_find_edge (the (poly_prepare tetra_seed)) 3 0 \<and>
   (\<exists>r. poly_find_edge (the (poly_prepare tetra_seed)) 0 3 = Some r \<and>
      (if (\<exists>i < unat (p_E (the (poly_prepare tetra_seed))).
             p_e (the (poly_prepare tetra_seed)) ! i = \<lparr>e_a = ucast (min 0 3 :: 8 word), e_b = ucast (max 0 3 :: 8 word)\<rparr>)
       then unat r < unat (p_E (the (poly_prepare tetra_seed))) \<and>
            p_e (the (poly_prepare tetra_seed)) ! unat r = \<lparr>e_a = ucast (min 0 3 :: 8 word), e_b = ucast (max 0 3 :: 8 word)\<rparr> \<and>
            (\<forall>j < unat (p_E (the (poly_prepare tetra_seed))).
               p_e (the (poly_prepare tetra_seed)) ! j = \<lparr>e_a = ucast (min 0 3 :: 8 word), e_b = ucast (max 0 3 :: 8 word)\<rparr> \<longrightarrow>
               j = unat r)
       else r = 0xFF))"
proof -
  have h1: "poly_sized tetra_seed" using tetra_seed_ok by blast
  have "\<exists>r. poly_prepare tetra_seed = Some r"
    using poly_prepare_defined[of tetra_seed] tetra_seed_ok by blast
  then have h2: "poly_prepare tetra_seed = Some (the (poly_prepare tetra_seed))" by auto
  show ?thesis using h1 h2 poly_find_edge_correct[OF h1 h2, of 0 3] by blast
qed

subsection \<open>Truncation\<close>

lemma tetra_built_ok:
  "poly_sized tetra_built \<and> poly_prepared tetra_built \<and> truncate_fits tetra_built"
  by code_simp

lemma tetra_built_counts:
  "unat (p_V tetra_built) = 4 \<and> unat (p_E tetra_built) = 6 \<and> unat (p_F tetra_built) = 4"
  by code_simp

lemma bind_if: "Option.bind (if c then a else b) k = (if c then Option.bind a k else Option.bind b k)"
  by simp

lemma map_option_if: "map_option h (if c then a else b) = (if c then map_option h a else map_option h b)"
  by simp

lemma p_v_update_out:
  "p_e_update f1 (p_v_update g u) = p_v_update g (p_e_update f1 u)"
  "p_E_update f2 (p_v_update g u) = p_v_update g (p_E_update f2 u)"
  "p_e2f_update f3 (p_v_update g u) = p_v_update g (p_e2f_update f3 u)"
  by (cases u; simp)+

lemma build_edges_step_v:
  "build_edges_step f n i (u\<lparr>p_v := x\<rparr>) =
     map_option (map_prod id (\<lambda>w. w\<lparr>p_v := x\<rparr>)) (build_edges_step f n i u)"
  unfolding build_edges_step_def Let_def
  by (simp add: map_option_bind comp_def bind_if map_option_if split_beta p_v_update_out cong: Option.bind_cong if_cong)


lemma build_edges_v:
  "build_edges (p\<lparr>p_v := x\<rparr>) = map_option (\<lambda>w. w\<lparr>p_v := x\<rparr>) (build_edges p)"
proof -
  have inner: "for_break ks (build_edges_step f n) (u\<lparr>p_v := x\<rparr>) =
        map_option (\<lambda>w. w\<lparr>p_v := x\<rparr>) (for_break ks (build_edges_step f n) u)" for ks f n u
    by (rule for_break_map) (rule build_edges_step_v)
  have "for_loop fs
          (\<lambda>f q. do { n \<leftarrow> nth_opt (p_fv q) f;
                       for_break [0..<unat n] (build_edges_step f (unat n)) q })
          (u\<lparr>p_v := x\<rparr>)
        = map_option (\<lambda>w. w\<lparr>p_v := x\<rparr>)
            (for_loop fs
              (\<lambda>f q. do { n \<leftarrow> nth_opt (p_fv q) f;
                           for_break [0..<unat n] (build_edges_step f (unat n)) q }) u)" for fs u
    by (rule for_loop_map) (simp add: inner map_option_bind comp_def cong: Option.bind_cong)
  from this[of "[0..<unat (p_F p)]" "p\<lparr>p_E := 0, p_e2f := replicate POLY_MAX_E (0xFF, 0xFF)\<rparr>"]
  show ?thesis
    by (simp add: build_edges_def p_v_update_out)
qed

lemma build_edges_e2f: "build_edges (p\<lparr>p_e2f := y\<rparr>) = build_edges p"
  by (simp add: build_edges_def)


lemma build_edges_same_faces:
  assumes "build_edges p = Some q" "poly_sized p" "faces_fit p"
  shows "same_faces p q"
  using build_edges_defined[OF assms(2,3)] assms(1) by auto

lemma poly_prepare_prepared:
  assumes sz: "poly_sized p" and pr: "poly_prepared p" and fit: "faces_fit p"
    and V: "unat (p_V p) \<le> POLY_MAX_V"
  shows "\<exists>tmp. poly_prepare p = Some tmp \<and> poly_sized tmp \<and> p_V tmp = p_V p \<and>
           p_F tmp = p_F p \<and> p_fv tmp = p_fv p \<and> p_f tmp = p_f p \<and>
           p_E tmp = p_E p \<and> edge_list tmp = edge_list p"
proof -
  from pr obtain q where q: "build_edges p = Some q" "p_E q = p_E p" "edge_list q = edge_list p"
    by (auto simp: poly_prepared_def split: option.splits)
  have sf: "same_faces p q" by (rule build_edges_same_faces[OF q(1) sz fit])
  have lv: "length (p_v p) = POLY_MAX_V" using sz by (simp add: poly_sized_def)
  then have "unat (p_V p) \<le> length (p_v p)" using V by simp
  from poly_prepare_eq[OF this] obtain vs where vs: "length vs = length (p_v p)"
    "poly_prepare p = build_edges (p\<lparr>p_v := vs, p_e2f := replicate POLY_MAX_E (0xFF, 0xFF)\<rparr>)"
    by blast
  have "poly_prepare p = Some (q\<lparr>p_v := vs\<rparr>)"
    using vs(2) q(1) by (simp add: build_edges_e2f build_edges_v)
  moreover have "poly_sized (q\<lparr>p_v := vs\<rparr>)"
    using same_faces_sized[OF sf sz] vs(1) lv by (simp add: poly_sized_def)
  ultimately show ?thesis
    using sf q(2,3) by (simp add: same_faces_def edge_list_def)
qed

lemma truncate_fits_cong:
  assumes "p_V q = p_V p" "p_F q = p_F p" "p_fv q = p_fv p" "p_f q = p_f p"
    "p_E q = p_E p" "edge_list q = edge_list p"
  shows "truncate_fits q = truncate_fits p"
  using assms by (simp add: truncate_fits_def faces_fit_def face_side_def)

lemma unat_ucast_16_8_le: "unat (ucast (w :: 16 word) :: 8 word) \<le> unat w"
  by (simp add: unsigned_ucast_eq take_bit_nat_less_eq_self)


lemma unat_8_lt: "unat (w :: 8 word) < 256"
  using unsigned_less[of w, where 'a = nat] by simp

lemma edge_list_nth:
  "k < unat (p_E p) \<Longrightarrow> length (p_e p) = 300 \<Longrightarrow> edge_list p ! k = p_e p ! k"
  by (simp add: edge_list_def)

lemma length_edge_list:
  "length (p_e p) = 300 \<Longrightarrow> length (edge_list p) = unat (p_E p)"
  using unat_8_lt[of "p_E p"] by (simp add: edge_list_def)

lemma truncate_cut_loop:
  assumes tz: "poly_sized tmp" and oz: "poly_sized out"
    and ends: "list_all (\<lambda>ed. unat (e_a ed) < POLY_MAX_V \<and> unat (e_b ed) < POLY_MAX_V)
                 (edge_list tmp)"
    and room: "2 * unat (p_E tmp) \<le> POLY_MAX_V"
  shows "\<exists>o1 cutA cutB.
           for_loop [0..<unat (p_E tmp)] (truncate_cut tmp t)
             (out\<lparr>p_V := 0\<rparr>, replicate POLY_MAX_E None, replicate POLY_MAX_E None)
           = Some (o1, cutA, cutB) \<and>
           poly_sized o1 \<and> unat (p_V o1) = 2 * unat (p_E tmp) \<and>
           length cutA = 300 \<and> length cutB = 300 \<and>
           (\<forall>k < unat (p_E tmp). cutA ! k \<noteq> None \<and> cutB ! k \<noteq> None)"
proof -
  let ?n = "unat (p_E tmp)"
  let ?I = "\<lambda>e (st :: Polyhedron \<times> 8 word option list \<times> 8 word option list).
              poly_sized (fst st) \<and> unat (p_V (fst st)) = 2 * e \<and>
              length (fst (snd st)) = 300 \<and> length (snd (snd st)) = 300 \<and>
              (\<forall>k < e. fst (snd st) ! k \<noteq> None \<and> snd (snd st) ! k \<noteq> None)"
  have le: "length (p_e tmp) = 300" and lv: "length (p_v tmp) = 200"
    using tz by (simp_all add: poly_sized_def POLY_MAX_E_def POLY_MAX_V_def)
  have "\<exists>st. for_loop [0..<?n] (truncate_cut tmp t)
             (out\<lparr>p_V := 0\<rparr>, replicate POLY_MAX_E None, replicate POLY_MAX_E None) = Some st \<and>
            ?I ?n st"
  proof (rule for_loop_inv_idx[where I = ?I])
    show "?I 0 (out\<lparr>p_V := 0\<rparr>, replicate POLY_MAX_E None, replicate POLY_MAX_E None)"
      using oz by (simp add: poly_sized_def POLY_MAX_E_def)
  next
    fix e st assume e: "e < ?n" and I: "?I e st"
    obtain o1 cA cB where st: "st = (o1, cA, cB)" by (cases st) auto
    have e300: "e < 300" using e unat_8_lt[of "p_E tmp"] by simp
    have "edge_list tmp ! e \<in> set (edge_list tmp)"
      using e le by (simp add: length_edge_list)
    then have "unat (e_a (p_e tmp ! e)) < 200 \<and> unat (e_b (p_e tmp ! e)) < 200"
      using ends e le by (auto simp: list_all_iff edge_list_nth POLY_MAX_V_def)
    then have ab: "unat (ucast (e_a (p_e tmp ! e)) :: 8 word) < 200"
                  "unat (ucast (e_b (p_e tmp ! e)) :: 8 word) < 200"
      using unat_ucast_16_8_le[of "e_a (p_e tmp ! e)"] unat_ucast_16_8_le[of "e_b (p_e tmp ! e)"]
      by linarith+
    have V: "unat (p_V o1) = 2 * e" and lo: "length (p_v o1) = 200"
      using I st by (simp_all add: poly_sized_def POLY_MAX_V_def)
    have e2: "2 * e + 1 < 200" using e room by (simp add: POLY_MAX_V_def)
    have V1: "unat (p_V o1 + 1) = 2 * e + 1" using V e2 by (simp add: unat_plus_one_8)
    have V2: "unat (p_V o1 + 1 + 1) = 2 * Suc e"
      using unat_plus_one_8[of "p_V o1 + 1"] V1 e2 by simp
    show "\<exists>st'. truncate_cut tmp t e st = Some st' \<and> ?I (Suc e) st'"
      using I st e300 le lv ab V lo e2 V1 V2
      by (auto simp: truncate_cut_def Let_def nth_opt_def upd_opt_def poly_sized_def
            nth_list_update less_Suc_eq)
  qed
  then show ?thesis by auto
qed


lemma set_face_vertex_defined:
  assumes "poly_sized q" "fi < 120" "k < 10"
  shows "\<exists>q'. set_face_vertex q fi k x = Some q' \<and> poly_sized q' \<and> p_V q' = p_V q \<and>
           p_F q' = p_F q \<and> p_fv q' = p_fv q"
proof -
  have lf: "length (p_f q) = 120" and rows: "\<forall>n < 120. length (p_f q ! n) = 10"
    using assms(1) by (simp_all add: poly_sized_def list_all_length POLY_MAX_F_def POLY_MAX_FV_def)
  show ?thesis
    using assms lf rows
    by (auto simp: set_face_vertex_def nth_opt_def upd_opt_def poly_sized_def list_all_length
          nth_list_update POLY_MAX_F_def POLY_MAX_FV_def)
qed

lemma edge_lookup_found:
  assumes "\<lparr>e_a = a, e_b = b\<rparr> \<in> set (take n es)" "n \<le> length es"
  shows "\<exists>k < n. edge_lookup es a b [0..<n] d = Some k"
proof -
  have "\<exists>k. edge_lookup es a b [0..<n] d = Some k"
    by (rule edge_lookup_defined) (use assms(2) in auto)
  then obtain k where k: "edge_lookup es a b [0..<n] d = Some k" by blast
  from assms obtain j where j: "j < n" "es ! j = \<lparr>e_a = a, e_b = b\<rparr>"
    by (auto simp: in_set_conv_nth)
  from edge_lookup_Some[OF k] j have "k < n" by auto
  then show ?thesis using k by blast
qed

lemma poly_find_edge_found:
  assumes "\<lparr>e_a = ucast (min x y), e_b = ucast (max x y)\<rparr> \<in> set (edge_list p)"
    and "length (p_e p) = 300"
  shows "\<exists>eidx. poly_find_edge p x y = Some eidx \<and> unat eidx < unat (p_E p)"
proof -
  have n: "unat (p_E p) \<le> length (p_e p)" using assms(2) unat_8_lt[of "p_E p"] by simp
  from edge_lookup_found[OF assms(1)[unfolded edge_list_def] n, of 255] obtain k where
    k: "k < unat (p_E p)"
       "edge_lookup (p_e p) (ucast (min x y)) (ucast (max x y)) [0..<unat (p_E p)] 255 = Some k"
    by blast
  have "unat (word_of_nat k :: 8 word) = k"
    using k(1) unat_8_lt[of "p_E p"] by (simp add: unat_of_nat)
  then show ?thesis
    using k by (simp add: poly_find_edge_def Let_def min_max_word_swap)
qed

lemma cut_point_defined:
  assumes "unat eidx < n" "n \<le> 300" "length (p_e tmp) = 300"
    "length cutA = 300" "length cutB = 300"
    "\<forall>k < n. cutA ! k \<noteq> None \<and> cutB ! k \<noteq> None"
  shows "\<exists>c. cut_point tmp cutA cutB vi eidx = Some c"
  using assms by (auto simp: cut_point_def nth_opt_def read_init_def split: option.splits)


lemma if_less_min_max:
  fixes x y :: "8 word"
  shows "(if x < y then x else y) = min x y" "(if x < y then y else x) = max x y"
  by (auto simp: min_def max_def)

lemma min_max_absorb:
  fixes x y :: "'a::linorder"
  shows "min (min x y) (max x y) = min x y" "max (min x y) (max x y) = max x y"
  by (auto simp: min_def max_def)

lemma truncate_face_defined:
  assumes tz: "poly_sized tmp" and fit: "faces_fit tmp" and f: "f < unat (p_F tmp)"
    and comp: "list_all (\<lambda>i. face_side tmp f i \<in> set (edge_list tmp))
                 [0..<unat (p_fv tmp ! f)]"
    and cuts: "length cutA = 300" "length cutB = 300"
              "\<forall>k < unat (p_E tmp). cutA ! k \<noteq> None \<and> cutB ! k \<noteq> None"
    and oz: "poly_sized out" and room: "unat (p_F out) < 120"
  shows "\<exists>o'. truncate_face tmp cutA cutB f out = Some o' \<and> poly_sized o' \<and>
           p_V o' = p_V out \<and> unat (p_F o') = Suc (unat (p_F out)) \<and>
           p_fv o' = (p_fv out)[unat (p_F out) := p_fv tmp ! f]"
proof -
  let ?n = "unat (p_fv tmp ! f)"
  have F: "unat (p_F tmp) \<le> 120" using fit by (simp add: faces_fit_def POLY_MAX_F_def)
  have lens: "length (p_fv tmp) = 120" "length (p_f tmp) = 120" "length (p_e tmp) = 300"
    using tz by (simp_all add: poly_sized_def POLY_MAX_F_def POLY_MAX_E_def)
  have rowlen: "length (p_f tmp ! f) = 10"
    using tz f F by (simp add: poly_sized_def list_all_length POLY_MAX_F_def POLY_MAX_FV_def)
  have n: "?n \<le> 10"
    using faces_fit_nth[OF fit f] lens by (simp add: POLY_MAX_F_def POLY_MAX_FV_def)
  have lofv: "length (p_fv out) = 120" using oz by (simp add: poly_sized_def POLY_MAX_F_def)
  let ?fv' = "(p_fv out)[unat (p_F out) := p_fv tmp ! f]"
  let ?o0 = "out\<lparr>p_fv := ?fv'\<rparr>"
  let ?J = "\<lambda>q. poly_sized q \<and> p_V q = p_V out \<and> p_F q = p_F out \<and> p_fv q = ?fv'"
  let ?body = "\<lambda>i q. do {
                     row \<leftarrow> nth_opt (p_f tmp) f;
                     vi \<leftarrow> nth_opt row i;
                     vj \<leftarrow> nth_opt row ((i + 1) mod ?n);
                     let aa = (if vi < vj then vi else vj);
                     let bb = (if vi < vj then vj else vi);
                     eidx \<leftarrow> poly_find_edge tmp aa bb;
                     c \<leftarrow> cut_point tmp cutA cutB (unat vi) eidx;
                     set_face_vertex q (unat (p_F q)) i c
                   }"
  have "\<exists>t. for_loop [0..<?n] ?body ?o0 = Some t \<and> ?J t"
  proof (rule for_loop_inv[where I = ?J])
    show "?J ?o0" using oz by (simp add: poly_sized_def)
  next
    fix i q assume i: "i \<in> set [0..<?n]" and J: "?J q"
    have i': "i < ?n" using i by simp
    then have i10: "i < 10" using n by linarith
    have "(i + 1) mod ?n < ?n" using i' by simp
    then have m10: "(i + 1) mod ?n < 10" using n by linarith
    let ?vi = "p_f tmp ! f ! i" and ?vj = "p_f tmp ! f ! ((i + 1) mod ?n)"
    have side: "\<lparr>e_a = ucast (min ?vi ?vj), e_b = ucast (max ?vi ?vj)\<rparr> \<in> set (edge_list tmp)"
      using comp i' by (simp add: list_all_iff face_side_def Let_def)
    have "\<lparr>e_a = ucast (min (min ?vi ?vj) (max ?vi ?vj)),
           e_b = ucast (max (min ?vi ?vj) (max ?vi ?vj))\<rparr> \<in> set (edge_list tmp)"
      using side by (simp only: min_max_absorb)
    from poly_find_edge_found[OF this lens(3)] obtain eidx where
      eidx: "poly_find_edge tmp (min ?vi ?vj) (max ?vi ?vj) = Some eidx"
            "unat eidx < unat (p_E tmp)" by blast
    have "unat (p_E tmp) \<le> 300" using unat_8_lt[of "p_E tmp"] by simp
    from cut_point_defined[OF eidx(2) this lens(3) cuts] obtain c where
      c: "cut_point tmp cutA cutB (unat ?vi) eidx = Some c" by blast
    from set_face_vertex_defined[of q "unat (p_F q)" i c] J room i10 obtain q' where
      q': "set_face_vertex q (unat (p_F q)) i c = Some q'" "?J q'" by auto
    show "\<exists>q'. ?body i q = Some q' \<and> ?J q'"
      using f F lens rowlen i10 m10 eidx(1) c q'
      by (simp add: nth_opt_def Let_def if_less_min_max)
  qed
  then obtain t where t: "for_loop [0..<?n] ?body ?o0 = Some t" "?J t" by blast
  have Fo: "unat (p_F out + 1) = Suc (unat (p_F out))"
    using room by (simp add: unat_plus_one_8)
  have "truncate_face tmp cutA cutB f out = Some (t\<lparr>p_F := p_F t + 1\<rparr>)"
    using f F lens lofv room t(1) by (simp add: truncate_face_def nth_opt_def upd_opt_def)
  moreover have "poly_sized (t\<lparr>p_F := p_F t + 1\<rparr>)"
    using t(2) lofv by (simp add: poly_sized_def POLY_MAX_F_def)
  ultimately show ?thesis using t(2) Fo by simp
qed


lemma truncate_face_loop:
  assumes tz: "poly_sized tmp" and fit: "faces_fit tmp"
    and comp: "list_all (\<lambda>f. list_all (\<lambda>i. face_side tmp f i \<in> set (edge_list tmp))
                              [0..<unat (p_fv tmp ! f)]) [0..<unat (p_F tmp)]"
    and cuts: "length cutA = 300" "length cutB = 300"
              "\<forall>k < unat (p_E tmp). cutA ! k \<noteq> None \<and> cutB ! k \<noteq> None"
    and oz: "poly_sized o1"
  shows "\<exists>o2. for_loop [0..<unat (p_F tmp)] (truncate_face tmp cutA cutB) (o1\<lparr>p_F := 0\<rparr>)
                = Some o2 \<and>
              poly_sized o2 \<and> p_V o2 = p_V o1 \<and> unat (p_F o2) = unat (p_F tmp) \<and>
              (\<forall>k < unat (p_F tmp). unat (p_fv o2 ! k) \<le> 10)"
proof -
  let ?I = "\<lambda>f q. poly_sized q \<and> p_V q = p_V o1 \<and> unat (p_F q) = f \<and>
                  (\<forall>k < f. unat (p_fv q ! k) \<le> 10)"
  have F: "unat (p_F tmp) \<le> 120" using fit by (simp add: faces_fit_def POLY_MAX_F_def)
  have lfv: "length (p_fv tmp) = 120" using tz by (simp add: poly_sized_def POLY_MAX_F_def)
  show ?thesis
  proof (rule for_loop_inv_idx[where I = ?I])
    show "?I 0 (o1\<lparr>p_F := 0\<rparr>)" using oz by (simp add: poly_sized_def)
  next
    fix f q assume f: "f < unat (p_F tmp)" and I: "?I f q"
    have c: "list_all (\<lambda>i. face_side tmp f i \<in> set (edge_list tmp)) [0..<unat (p_fv tmp ! f)]"
      using comp f by (simp add: list_all_iff)
    have room: "unat (p_F q) < 120" using I f F by simp
    have n: "unat (p_fv tmp ! f) \<le> 10"
      using faces_fit_nth[OF fit f] lfv by (simp add: POLY_MAX_F_def POLY_MAX_FV_def)
    have lq: "length (p_fv q) = 120" using I by (simp add: poly_sized_def POLY_MAX_F_def)
    have qz: "poly_sized q" using I by simp
    from truncate_face_defined[OF tz fit f c cuts qz room] obtain q' where
      q': "truncate_face tmp cutA cutB f q = Some q'" "poly_sized q'" "p_V q' = p_V q"
          "unat (p_F q') = Suc (unat (p_F q))"
          "p_fv q' = (p_fv q)[unat (p_F q) := p_fv tmp ! f]" by blast
    have "\<forall>k < Suc f. unat (p_fv q' ! k) \<le> 10"
      using I q'(5) n lq room by (auto simp: nth_list_update less_Suc_eq)
    then show "\<exists>q'. truncate_face tmp cutA cutB f q = Some q' \<and> ?I (Suc f) q'"
      using q' I by auto
  qed
qed

lemma incident_count_mono:
  "e \<le> n \<Longrightarrow> length (filter P (take e es)) \<le> length (filter P (take n es))"
proof -
  assume "e \<le> n"
  then have "take n es = take e es @ take (n - e) (drop e es)"
    by (metis le_add_diff_inverse take_add)
  then show ?thesis by simp
qed

lemma truncate_vertex_defined:
  assumes tz: "poly_sized tmp"
    and val: "length (filter (incident vi) (edge_list tmp)) \<le> 10"
    and cuts: "length cutA = 300" "length cutB = 300"
              "\<forall>k < unat (p_E tmp). cutA ! k \<noteq> None \<and> cutB ! k \<noteq> None"
    and oz: "poly_sized out" and room: "unat (p_F out) < 120"
  shows "\<exists>o'. truncate_vertex tmp cutA cutB vi out = Some o' \<and> poly_sized o' \<and>
           p_V o' = p_V out \<and> unat (p_F o') = Suc (unat (p_F out)) \<and>
           (\<exists>cnt. unat cnt \<le> 10 \<and> p_fv o' = (p_fv out)[unat (p_F out) := cnt])"
proof -
  let ?n = "unat (p_E tmp)"
  let ?es = "p_e tmp"
  have le: "length ?es = 300" using tz by (simp add: poly_sized_def POLY_MAX_E_def)
  have n: "?n < 256" by (rule unat_8_lt)
  let ?c = "\<lambda>e. length (filter (incident vi) (take e ?es))"
  have cmax: "?c e \<le> 10" if "e \<le> ?n" for e
    using incident_count_mono[OF that, of "incident vi" ?es] val by (simp add: edge_list_def)
  let ?K = "\<lambda>e (st :: 8 word option list \<times> 8 word).
              length (fst st) = 10 \<and> unat (snd st) = ?c e \<and>
              (\<forall>k < ?c e. \<exists>x. fst st ! k = Some x \<and> unat x < ?n)"
  let ?body = "\<lambda>e (inc, cnt). do {
              ed \<leftarrow> nth_opt (p_e tmp) e;
              if unat (e_a ed) = vi \<or> unat (e_b ed) = vi then do {
                inc' \<leftarrow> upd_opt inc (unat cnt) (Some (word_of_nat e :: 8 word));
                Some (inc', cnt + 1)
              } else Some (inc, cnt)
            }"
  have "\<exists>st. for_loop [0..<?n] ?body (replicate POLY_MAX_FV None, 0 :: 8 word) = Some st \<and> ?K ?n st"
  proof (rule for_loop_inv_idx[where I = ?K])
    show "?K 0 (replicate POLY_MAX_FV None, 0)" by (simp add: POLY_MAX_FV_def)
  next
    fix e st assume e: "e < ?n" and K: "?K e st"
    obtain inc cnt where st: "st = (inc, cnt)" by (cases st) auto
    have e300: "e < 300" using e n by simp
    have tk: "take (Suc e) ?es = take e ?es @ [?es ! e]"
      using e300 le by (simp add: take_Suc_conv_app_nth)
    have ue: "unat (word_of_nat e :: 8 word) = e" using e n by (simp add: unat_of_nat)
    show "\<exists>st'. ?body e st = Some st' \<and> ?K (Suc e) st'"
    proof (cases "incident vi (?es ! e)")
      case False
      then have "?c (Suc e) = ?c e" by (simp add: tk)
      then show ?thesis
        using K st False e300 le by (simp add: nth_opt_def incident_def)
    next
      case True
      then have cs: "?c (Suc e) = Suc (?c e)" by (simp add: tk)
      have "?c (Suc e) \<le> 10" using cmax[of "Suc e"] e by simp
      then have lt: "?c e < 10" using cs by simp
      have cnt1: "unat (cnt + 1) = Suc (?c e)" using K st lt by (simp add: unat_plus_one_8)
      show ?thesis
        using K st True e300 le lt cs cnt1 ue e
        by (auto simp: nth_opt_def upd_opt_def incident_def nth_list_update less_Suc_eq)
    qed
  qed
  then obtain inc cnt where ic:
    "for_loop [0..<?n] ?body (replicate POLY_MAX_FV None, 0 :: 8 word) = Some (inc, cnt)"
    "length inc = 10" "unat cnt = ?c ?n"
    "\<forall>k < ?c ?n. \<exists>x. inc ! k = Some x \<and> unat x < ?n" by auto
  have cnt10: "unat cnt \<le> 10" using ic(3) cmax[of ?n] by simp
  have lofv: "length (p_fv out) = 120" using oz by (simp add: poly_sized_def POLY_MAX_F_def)
  let ?fv' = "(p_fv out)[unat (p_F out) := cnt]"
  let ?o0 = "out\<lparr>p_fv := ?fv'\<rparr>"
  let ?J = "\<lambda>q. poly_sized q \<and> p_V q = p_V out \<and> p_F q = p_F out \<and> p_fv q = ?fv'"
  let ?body2 = "\<lambda>k q. do {
                     eidx \<leftarrow> read_init inc k;
                     c \<leftarrow> cut_point tmp cutA cutB vi eidx;
                     set_face_vertex q (unat (p_F q)) k c
                   }"
  have "\<exists>t. for_loop [0..<unat cnt] ?body2 ?o0 = Some t \<and> ?J t"
  proof (rule for_loop_inv[where I = ?J])
    show "?J ?o0" using oz by (simp add: poly_sized_def)
  next
    fix k q assume k: "k \<in> set [0..<unat cnt]" and J: "?J q"
    have k': "k < ?c ?n" using k ic(3) by simp
    then have k10: "k < 10" using cnt10 ic(3) by simp
    from ic(4) k' obtain x where x: "inc ! k = Some x" "unat x < ?n" by blast
    have rd: "read_init inc k = Some x" using x(1) k10 ic(2) by (simp add: read_init_def nth_opt_def)
    have "?n \<le> 300" using n by simp
    from cut_point_defined[OF x(2) this le cuts] obtain c where
      c: "cut_point tmp cutA cutB vi x = Some c" by blast
    from set_face_vertex_defined[of q "unat (p_F q)" k c] J room k10 obtain q' where
      q': "set_face_vertex q (unat (p_F q)) k c = Some q'" "?J q'" by auto
    show "\<exists>q'. ?body2 k q = Some q' \<and> ?J q'" using rd c q' by simp
  qed
  then obtain t where t: "for_loop [0..<unat cnt] ?body2 ?o0 = Some t" "?J t" by blast
  have Fo: "unat (p_F out + 1) = Suc (unat (p_F out))"
    using room by (simp add: unat_plus_one_8)
  have "truncate_vertex tmp cutA cutB vi out = Some (t\<lparr>p_F := p_F t + 1\<rparr>)"
    using ic(1) lofv room t(1) by (simp add: truncate_vertex_def upd_opt_def)
  moreover have "poly_sized (t\<lparr>p_F := p_F t + 1\<rparr>)"
    using t(2) lofv by (simp add: poly_sized_def POLY_MAX_F_def)
  ultimately show ?thesis using t(2) Fo cnt10 by auto
qed


lemma truncate_vertex_loop:
  assumes tz: "poly_sized tmp"
    and val: "list_all (\<lambda>vi. length (filter (incident vi) (edge_list tmp)) \<le> POLY_MAX_FV)
                [0..<unat (p_V tmp)]"
    and cuts: "length cutA = 300" "length cutB = 300"
              "\<forall>k < unat (p_E tmp). cutA ! k \<noteq> None \<and> cutB ! k \<noteq> None"
    and oz: "poly_sized o2" and F2: "unat (p_F o2) = unat (p_F tmp)"
    and fv2: "\<forall>k < unat (p_F tmp). unat (p_fv o2 ! k) \<le> 10"
    and room: "unat (p_F tmp) + unat (p_V tmp) \<le> POLY_MAX_F"
  shows "\<exists>o3. for_loop [0..<unat (p_V tmp)] (truncate_vertex tmp cutA cutB) o2 = Some o3 \<and>
              poly_sized o3 \<and> p_V o3 = p_V o2 \<and>
              unat (p_F o3) = unat (p_F tmp) + unat (p_V tmp) \<and>
              (\<forall>k < unat (p_F tmp) + unat (p_V tmp). unat (p_fv o3 ! k) \<le> 10)"
proof -
  let ?F = "unat (p_F tmp)"
  let ?I = "\<lambda>vi q. poly_sized q \<and> p_V q = p_V o2 \<and> unat (p_F q) = ?F + vi \<and>
                  (\<forall>k < ?F + vi. unat (p_fv q ! k) \<le> 10)"
  show ?thesis
  proof (rule for_loop_inv_idx[where I = ?I])
    show "?I 0 o2" using oz F2 fv2 by simp
  next
    fix vi q assume vi: "vi < unat (p_V tmp)" and I: "?I vi q"
    have v: "length (filter (incident vi) (edge_list tmp)) \<le> 10"
      using val vi by (simp add: list_all_iff POLY_MAX_FV_def)
    have qz: "poly_sized q" using I by simp
    have rm: "unat (p_F q) < 120" using I vi room by (simp add: POLY_MAX_F_def)
    have lq: "length (p_fv q) = 120" using qz by (simp add: poly_sized_def POLY_MAX_F_def)
    from truncate_vertex_defined[OF tz v cuts qz rm] obtain q' cnt where
      q': "truncate_vertex tmp cutA cutB vi q = Some q'" "poly_sized q'" "p_V q' = p_V q"
          "unat (p_F q') = Suc (unat (p_F q))" "unat cnt \<le> 10"
          "p_fv q' = (p_fv q)[unat (p_F q) := cnt]" by blast
    have "\<forall>k < ?F + Suc vi. unat (p_fv q' ! k) \<le> 10"
      using I q'(5,6) lq rm by (auto simp: nth_list_update less_Suc_eq)
    then show "\<exists>q'. truncate_vertex tmp cutA cutB vi q = Some q' \<and> ?I (Suc vi) q'"
      using q' I by auto
  qed
qed

lemma poly_sized_v_update:
  "poly_sized p \<Longrightarrow> length vs = length (p_v p) \<Longrightarrow> poly_sized (p\<lparr>p_v := vs\<rparr>)"
  by (simp add: poly_sized_def)

lemma faces_fit_v_update: "faces_fit (p\<lparr>p_v := vs\<rparr>) = faces_fit p"
  by (simp add: faces_fit_def)

text \<open>
  The result of \<open>poly_prepare\<close> is prepared: the edge builder clears \<open>E\<close> and the
  edge-to-face table first, and reads only the faces and the edges it has written.
\<close>

lemma edge_lookup_cong_take:
  assumes "\<forall>k \<in> set ks. k < n" "take n es' = take n es" "length es' = length es"
  shows "edge_lookup es' a b ks d = edge_lookup es a b ks d"
  using assms(1)
proof (induction ks)
  case Nil
  then show ?case by simp
next
  case (Cons k ks)
  have "k < n" using Cons.prems by simp
  then have "es' ! k = es ! k" using assms(2) by (metis nth_take)
  then have "nth_opt es' k = nth_opt es k" using assms(3) by (simp add: nth_opt_def)
  moreover have "edge_lookup es' a b ks d = edge_lookup es a b ks d"
    using Cons by simp
  ultimately show ?case by (simp only: edge_lookup.simps)
qed

lemma build_edges_step_sim:
  assumes st: "build_edges_step f n i u = Some (b, u')" and R: "edges_agree u w"
  shows "\<exists>w'. build_edges_step f n i w = Some (b, w') \<and> edges_agree u' w'"
proof -
  from st obtain row and a0 b0 :: "8 word" and e where
    row: "nth_opt (p_f u) f = Some row" "nth_opt row i = Some a0"
         "nth_opt row ((i + 1) mod n) = Some b0" and
    e: "edge_lookup (p_e u) (ucast (if a0 > b0 then b0 else a0))
          (ucast (if a0 > b0 then a0 else b0)) [0..<unat (p_E u)] (unat (p_E u)) = Some e"
    and rest: "(if e = unat (p_E u) \<and> unat (p_E u) \<ge> POLY_MAX_E then Some (True, u)
       else do {
         p1 \<leftarrow> (if e = unat (p_E u)
                 then do {
                   es \<leftarrow> upd_opt (p_e u) e \<lparr>e_a = ucast (if a0 > b0 then b0 else a0),
                                               e_b = ucast (if a0 > b0 then a0 else b0)\<rparr>;
                   Some (u\<lparr>p_e := es, p_E := p_E u + 1\<rparr>)
                 }
                 else Some u);
         (f0, f1) \<leftarrow> nth_opt (p_e2f p1) e;
         e2f' \<leftarrow> upd_opt (p_e2f p1) e
                   (if f0 = 0xFF then (word_of_nat f, f1) else (f0, word_of_nat f));
         Some (False, p1\<lparr>p_e2f := e2f'\<rparr>)
       }) = Some (b, u')"
    by (auto simp: build_edges_step_def Let_def bind_eq_Some_conv)
  let ?new = "\<lparr>e_a = ucast (if a0 > b0 then b0 else a0),
               e_b = ucast (if a0 > b0 then a0 else b0)\<rparr>"
  have Rs: "p_F w = p_F u" "p_fv w = p_fv u" "p_f w = p_f u" "p_E w = p_E u"
    "length (p_e w) = length (p_e u)"
    "take (unat (p_E u)) (p_e w) = take (unat (p_E u)) (p_e u)" "p_e2f w = p_e2f u"
    using R by (auto simp: edges_agree_def edge_list_def)
  have E: "unat (p_E u) < 256" by (rule unat_8_lt)
  have e': "edge_lookup (p_e w) (ucast (if a0 > b0 then b0 else a0))
          (ucast (if a0 > b0 then a0 else b0)) [0..<unat (p_E w)] (unat (p_E w)) = Some e"
    using edge_lookup_cong_take[OF _ Rs(6) Rs(5), of "[0..<unat (p_E u)]"] e Rs(4) by simp
  have stw: "build_edges_step f n i w =
      (if e = unat (p_E w) \<and> unat (p_E w) \<ge> POLY_MAX_E then Some (True, w)
       else do {
         p1 \<leftarrow> (if e = unat (p_E w)
                 then do {
                   es \<leftarrow> upd_opt (p_e w) e ?new;
                   Some (w\<lparr>p_e := es, p_E := p_E w + 1\<rparr>)
                 }
                 else Some w);
         (f0, f1) \<leftarrow> nth_opt (p_e2f p1) e;
         e2f' \<leftarrow> upd_opt (p_e2f p1) e
                   (if f0 = 0xFF then (word_of_nat f, f1) else (f0, word_of_nat f));
         Some (False, p1\<lparr>p_e2f := e2f'\<rparr>)
       })"
    using row e' Rs(3) by (simp add: build_edges_step_def Let_def)
  have nobrk: "\<not> (unat (p_E u) \<ge> POLY_MAX_E)" using E by (simp add: POLY_MAX_E_def)
  show ?thesis
  proof (cases "e = unat (p_E u)")
    case False
    from rest False obtain f0 f1 e2f' where
      u': "nth_opt (p_e2f u) e = Some (f0, f1)"
          "upd_opt (p_e2f u) e (if f0 = 0xFF then (word_of_nat f, f1) else (f0, word_of_nat f))
             = Some e2f'"
          "b = False" "u' = u\<lparr>p_e2f := e2f'\<rparr>"
      by (auto simp: bind_eq_Some_conv)
    have "build_edges_step f n i w = Some (b, w\<lparr>p_e2f := e2f'\<rparr>)"
      unfolding stw using False Rs(4,7) u'(1,2,3) by simp
    moreover have "edges_agree u' (w\<lparr>p_e2f := e2f'\<rparr>)"
      using Rs u'(4) by (simp add: edges_agree_def edge_list_def)
    ultimately show ?thesis by blast
  next
    case True
    from rest True nobrk obtain f0 f1 e2f' where
      lt: "e < length (p_e u)" and
      u': "nth_opt (p_e2f u) e = Some (f0, f1)"
          "upd_opt (p_e2f u) e (if f0 = 0xFF then (word_of_nat f, f1) else (f0, word_of_nat f))
             = Some e2f'"
          "b = False" "u' = u\<lparr>p_e := (p_e u)[e := ?new], p_E := p_E u + 1, p_e2f := e2f'\<rparr>"
      by (auto simp: bind_eq_Some_conv upd_opt_def split: if_splits)
    let ?w' = "w\<lparr>p_e := (p_e w)[e := ?new], p_E := p_E w + 1, p_e2f := e2f'\<rparr>"
    have ue: "upd_opt (p_e w) e ?new = Some ((p_e w)[e := ?new])"
      using lt Rs(5) by (simp add: upd_opt_def)
    have "build_edges_step f n i w = Some (b, ?w')"
      unfolding stw using True nobrk Rs(4,7) u'(1,2,3) ue by simp
    moreover have "edges_agree u' ?w'"
    proof (cases "unat (p_E u) = 255")
      case True
      then show ?thesis using Rs u'(4) by (simp add: edges_agree_def edge_list_def unat_plus_one_8)
    next
      case False
      then have "unat (p_E u + 1) = Suc (unat (p_E u))" by (simp add: unat_plus_one_8)
      then show ?thesis
        using Rs u'(4) lt True by (simp add: edges_agree_def edge_list_def take_Suc_update)
    qed
    ultimately show ?thesis by blast
  qed
qed

lemma build_edges_step_frame:
  assumes st: "build_edges_step f n i u = Some (b, u')"
  shows "p_F u' = p_F u \<and> p_fv u' = p_fv u \<and> p_f u' = p_f u \<and> length (p_e u') = length (p_e u)"
  using st
  by (auto simp: build_edges_step_def Let_def bind_eq_Some_conv upd_opt_def split: if_splits)


lemma build_edges_frame:
  assumes "build_edges p = Some q"
  shows "p_F q = p_F p \<and> p_fv q = p_fv p \<and> p_f q = p_f p \<and> length (p_e q) = length (p_e p)"
proof -
  let ?I = "\<lambda>u. p_F u = p_F p \<and> p_fv u = p_fv p \<and> p_f u = p_f p \<and>
                length (p_e u) = length (p_e p)"
  show ?thesis
    using assms unfolding build_edges_def
  proof (rule for_loop_pres[where I = ?I])
    show "?I (p\<lparr>p_E := 0, p_e2f := replicate POLY_MAX_E (0xFF, 0xFF)\<rparr>)" by simp
  next
    fix i u u'
    assume u: "?I u"
      and b: "do { n \<leftarrow> nth_opt (p_fv u) i;
                   for_break [0..<unat n] (build_edges_step i (unat n)) u } = Some u'"
    from b obtain n :: "8 word" where
      "for_break [0..<unat n] (build_edges_step i (unat n)) u = Some u'"
      by (auto simp: bind_eq_Some_conv)
    then show "?I u'"
    proof (rule for_break_pres[where I = ?I])
      show "?I u" by (rule u)
    next
      fix k v c v'
      assume "?I v" "build_edges_step i (unat n) k v = Some (c, v')"
      then show "?I v'" using build_edges_step_frame[of i "unat n" k v c v'] by simp
    qed
  qed
qed

lemma build_edges_prepared:
  assumes "build_edges p = Some q"
  shows "poly_prepared q"
proof -
  let ?body = "\<lambda>f u. do { n \<leftarrow> nth_opt (p_fv u) f;
                          for_break [0..<unat n] (build_edges_step f (unat n)) u }"
  let ?p0 = "p\<lparr>p_E := 0, p_e2f := replicate POLY_MAX_E (0xFF, 0xFF)\<rparr>"
  let ?q0 = "q\<lparr>p_E := 0, p_e2f := replicate POLY_MAX_E (0xFF, 0xFF)\<rparr>"
  note fr = build_edges_frame[OF assms]
  have run: "for_loop [0..<unat (p_F p)] ?body ?p0 = Some q"
    using assms by (simp add: build_edges_def)
  have R0: "edges_agree ?p0 ?q0" using fr by (simp add: edges_agree_def edge_list_def)
  have "\<exists>w'. for_loop [0..<unat (p_F p)] ?body ?q0 = Some w' \<and> edges_agree q w'"
    using run R0
  proof (rule for_loop_sim[where R = edges_agree])
    fix f u u' v
    assume R: "edges_agree u v" and b: "?body f u = Some u'"
    from b obtain n :: "8 word" where n: "nth_opt (p_fv u) f = Some n"
      "for_break [0..<unat n] (build_edges_step f (unat n)) u = Some u'"
      by (auto simp: bind_eq_Some_conv)
    have "\<exists>v'. for_break [0..<unat n] (build_edges_step f (unat n)) v = Some v' \<and>
               edges_agree u' v'"
      using n(2) R
      by (rule for_break_sim[where R = edges_agree]) (use build_edges_step_sim in blast)
    moreover have "nth_opt (p_fv v) f = Some n" using n(1) R by (simp add: edges_agree_def)
    ultimately show "\<exists>v'. ?body f v = Some v' \<and> edges_agree u' v'" by simp
  qed
  then obtain w' where w': "build_edges q = Some w'" "edges_agree q w'"
    using fr by (auto simp: build_edges_def)
  then show ?thesis by (simp add: poly_prepared_def edges_agree_def)
qed

lemma poly_prepare_is_prepared:
  assumes "poly_prepare q = Some p"
  shows "poly_prepared p"
  using assms build_edges_prepared by (auto simp: poly_prepare_def bind_eq_Some_conv)

text \<open>
  C4. For a prepared input polyhedron with V vertices, E edges and F faces whose truncation
  fits the fixed capacities (\<open>2 * E \<le> POLY_MAX_V\<close>, \<open>F + V \<le> POLY_MAX_F\<close>, at most
  \<open>POLY_MAX_FV\<close> edges at a vertex), and with the scratch pool not exhausted,
  \<open>poly_truncate\<close> returns an output polyhedron with exactly \<open>2 * E\<close> vertices and exactly
  \<open>F + V\<close> faces.
\<close>

theorem poly_truncate_counts:
  assumes iz: "poly_sized inp" and oz: "poly_sized out"
    and pr: "poly_prepared inp" and fits: "truncate_fits inp" and pool: "0 < pool"
  shows "\<exists>r. poly_truncate pool inp out t = Some r \<and>
             unat (p_V r) = 2 * unat (p_E inp) \<and>
             unat (p_F r) = unat (p_F inp) + unat (p_V inp)"
proof -
  have fit: "faces_fit inp" and E2: "2 * unat (p_E inp) \<le> POLY_MAX_V"
    using fits by (simp_all add: truncate_fits_def)
  have Vin: "unat (p_V inp) \<le> POLY_MAX_V"
    using unat_8_lt[of "p_V inp"] fits by (simp add: truncate_fits_def POLY_MAX_V_def POLY_MAX_F_def)
  from poly_prepare_prepared[OF iz pr fit Vin] obtain tmp where
    tmp: "poly_prepare inp = Some tmp" "poly_sized tmp" "p_V tmp = p_V inp" "p_F tmp = p_F inp"
         "p_fv tmp = p_fv inp" "p_f tmp = p_f inp" "p_E tmp = p_E inp"
         "edge_list tmp = edge_list inp" by blast
  have tf: "truncate_fits tmp"
    using truncate_fits_cong[OF tmp(3-8)] fits by simp
  have t1: "2 * unat (p_E tmp) \<le> POLY_MAX_V"
    and t2: "unat (p_F tmp) + unat (p_V tmp) \<le> POLY_MAX_F"
    and t3: "faces_fit tmp"
    and t4: "list_all (\<lambda>ed. unat (e_a ed) < POLY_MAX_V \<and> unat (e_b ed) < POLY_MAX_V)
               (edge_list tmp)"
    and t5: "list_all (\<lambda>vi. length (filter (incident vi) (edge_list tmp)) \<le> POLY_MAX_FV)
               [0..<unat (p_V tmp)]"
    and t6: "list_all (\<lambda>f. list_all (\<lambda>i. face_side tmp f i \<in> set (edge_list tmp))
                              [0..<unat (p_fv tmp ! f)]) [0..<unat (p_F tmp)]"
    using tf by (simp_all add: truncate_fits_def)
  from truncate_cut_loop[OF tmp(2) oz t4 t1, of t] obtain o1 cutA cutB where
    o1: "for_loop [0..<unat (p_E tmp)] (truncate_cut tmp t)
           (out\<lparr>p_V := 0\<rparr>, replicate POLY_MAX_E None, replicate POLY_MAX_E None)
         = Some (o1, cutA, cutB)" "poly_sized o1" "unat (p_V o1) = 2 * unat (p_E tmp)"
    and cuts: "length cutA = 300" "length cutB = 300"
        "\<forall>k < unat (p_E tmp). cutA ! k \<noteq> None \<and> cutB ! k \<noteq> None" by blast
  from truncate_face_loop[OF tmp(2) t3 t6 cuts o1(2)] obtain o2 where
    o2: "for_loop [0..<unat (p_F tmp)] (truncate_face tmp cutA cutB) (o1\<lparr>p_F := 0\<rparr>) = Some o2"
        "poly_sized o2" "p_V o2 = p_V o1" "unat (p_F o2) = unat (p_F tmp)"
        "\<forall>k < unat (p_F tmp). unat (p_fv o2 ! k) \<le> 10" by blast
  from truncate_vertex_loop[OF tmp(2) t5 cuts o2(2,4,5) t2] obtain o3 where
    o3: "for_loop [0..<unat (p_V tmp)] (truncate_vertex tmp cutA cutB) o2 = Some o3"
        "poly_sized o3" "p_V o3 = p_V o2"
        "unat (p_F o3) = unat (p_F tmp) + unat (p_V tmp)"
        "\<forall>k < unat (p_F tmp) + unat (p_V tmp). unat (p_fv o3 ! k) \<le> 10" by blast
  have V3: "unat (p_V o3) = 2 * unat (p_E tmp)" using o3(3) o2(3) o1(3) by simp
  have l3: "length (p_v o3) = POLY_MAX_V" "length (p_fv o3) = POLY_MAX_F"
    using o3(2) by (simp_all add: poly_sized_def)
  have V3le: "unat (p_V o3) \<le> length (p_v o3)" using V3 t1 l3 by simp
  from poly_radial_normalize_v[OF V3le] obtain vs where
    vs: "poly_radial_normalize o3 = Some (o3\<lparr>p_v := vs\<rparr>)" "length vs = length (p_v o3)"
    by blast
  let ?o4 = "o3\<lparr>p_v := vs\<rparr>"
  have z4: "poly_sized ?o4" by (rule poly_sized_v_update[OF o3(2) vs(2)])
  have "list_all (\<lambda>n. unat n \<le> POLY_MAX_FV) (take (unat (p_F o3)) (p_fv o3))"
    using o3(4,5) t2 l3(2) by (simp add: list_all_length POLY_MAX_FV_def)
  then have f3: "faces_fit o3" using o3(4) t2 by (simp add: faces_fit_def)
  have f4: "faces_fit ?o4" using f3 by (simp add: faces_fit_v_update)
  have V4: "unat (p_V ?o4) \<le> POLY_MAX_V" using V3 t1 by simp
  from poly_prepare_defined[OF z4 f4 V4] obtain r ws where
    r: "poly_prepare ?o4 = Some r" "same_faces (?o4\<lparr>p_v := ws\<rparr>) r" by blast
  have rV: "p_V r = p_V o3" and rF: "p_F r = p_F o3" using r(2) by (simp_all add: same_faces_def)
  have "poly_truncate pool inp out t = Some r"
    using pool tmp(1) o1(1) o2(1) o3(1) vs(1) r(1) by (simp add: poly_truncate_def)
  then show ?thesis using rV rF V3 o3(4) tmp(3,4,7) by simp
qed

text \<open>The truncated tetrahedron: 12 vertices and 8 faces.\<close>

theorem poly_truncate_counts_witness:
  "poly_sized tetra_built \<and> poly_sized poly_zero \<and> poly_prepared tetra_built \<and>
   truncate_fits tetra_built \<and> (0::nat) < 1 \<and>
   (\<exists>r. poly_truncate 1 tetra_built poly_zero (1 / 3) = Some r \<and>
        unat (p_V r) = 12 \<and> unat (p_F r) = 8)"
  using poly_truncate_counts[of tetra_built poly_zero 1 "1 / 3"] tetra_built_ok poly_sized_zero
    tetra_built_counts
  by simp

subsection \<open>Truncation beyond the vertex capacity\<close>

text \<open>
  The edge builder on the seed's face table: no two faces share a side (a pentagon and the
  triangle next to it use different cut points of the same edge), so all \<open>12 * 5 + 20 * 3\<close>
  sides are edges.
\<close>

lemma icosi_topo_built:
  "(case build_edges icosi_topo of None \<Rightarrow> False
    | Some q \<Rightarrow> poly_sized q \<and> faces_fit q \<and> unat (p_V q) = 60 \<and> unat (p_E q) = 120 \<and>
                unat (p_F q) = 32)"
  by code_simp

lemma truncate_cut_count:
  assumes "truncate_cut tmp t e (out, cA, cB) = Some (out', cA', cB')"
    and "unat (p_V out) = 2 * e" "e < 100" "length (p_v out) = 200"
  shows "unat (p_V out') = 2 * Suc e \<and> length (p_v out') = 200"
proof -
  from assms(1) obtain vs1 vs2 where
    o: "out' = out\<lparr>p_v := vs2, p_V := p_V out + 1 + 1\<rparr>" "length vs2 = length (p_v out)"
    by (auto simp: truncate_cut_def Let_def bind_eq_Some_conv upd_opt_def split: if_splits)
  have "unat (p_V out + 1) = 2 * e + 1" using assms(2,3) by (simp add: unat_plus_one_8)
  then have "unat (p_V out + 1 + 1) = 2 * e + 2"
    using assms(3) unat_plus_one_8[of "p_V out + 1"] by simp
  then show ?thesis using o assms(4) by simp
qed

lemma truncate_cut_full:
  assumes "unat (p_V out) = 200" "length (p_v out) = 200"
  shows "truncate_cut tmp t e (out, cA, cB) = None"
  using assms by (simp add: truncate_cut_def Let_def upd_opt_def)

lemma truncate_cut_overflow:
  assumes E: "100 < unat (p_E tmp)" and len: "length (p_v out) = 200"
  shows "for_loop [0..<unat (p_E tmp)] (truncate_cut tmp t) (out\<lparr>p_V := 0\<rparr>, cA, cB) = None"
proof -
  let ?I = "\<lambda>e (st :: Polyhedron \<times> 8 word option list \<times> 8 word option list).
              unat (p_V (fst st)) = 2 * e \<and> length (p_v (fst st)) = 200"
  let ?s = "(out\<lparr>p_V := 0\<rparr>, cA, cB)"
  have split: "[0..<unat (p_E tmp)] = [0..<100] @ 100 # [101..<unat (p_E tmp)]"
  proof -
    have "[0..<unat (p_E tmp)] = [0..<100] @ [100..<unat (p_E tmp)]"
      using E upt_add_eq_append[of 0 100 "unat (p_E tmp) - 100"] by simp
    moreover have "[100..<unat (p_E tmp)] = 100 # [101..<unat (p_E tmp)]"
      using E upt_conv_Cons[of 100 "unat (p_E tmp)"] by simp
    ultimately show ?thesis by simp
  qed
  show ?thesis
  proof (cases "for_loop [0..<100] (truncate_cut tmp t) ?s")
    case None
    then show ?thesis unfolding split by (simp add: for_loop_append)
  next
    case (Some st)
    have "?I 100 st"
    proof (rule for_loop_pres_idx[where I = ?I, OF Some])
      show "?I 0 ?s" using len by simp
    next
      fix i u u'
      assume "i < 100" "?I i u" "truncate_cut tmp t i u = Some u'"
      then show "?I (Suc i) u'"
        using truncate_cut_count[of tmp t i "fst u" "fst (snd u)" "snd (snd u)"
                "fst u'" "fst (snd u')" "snd (snd u')"] by simp
    qed
    then have "truncate_cut tmp t 100 st = None"
      using truncate_cut_full[of "fst st" tmp t 100 "fst (snd st)" "snd (snd st)"] by simp
    then show ?thesis unfolding split using Some by (simp add: for_loop_append)
  qed
qed

lemma poly_truncate_overflow:
  assumes iz: "poly_sized inp" and oz: "poly_sized out" and pr: "poly_prepared inp"
    and fit: "faces_fit inp" and V: "unat (p_V inp) \<le> POLY_MAX_V"
    and E: "POLY_MAX_V < 2 * unat (p_E inp)" and pool: "0 < pool"
  shows "poly_truncate pool inp out t = None"
proof -
  from poly_prepare_prepared[OF iz pr fit V] obtain tmp where
    tmp: "poly_prepare inp = Some tmp" "p_E tmp = p_E inp" by blast
  have "100 < unat (p_E tmp)" using E tmp(2) by (simp add: POLY_MAX_V_def)
  moreover have "length (p_v out) = 200" using oz by (simp add: poly_sized_def POLY_MAX_V_def)
  ultimately have "for_loop [0..<unat (p_E tmp)] (truncate_cut tmp t)
      (out\<lparr>p_V := 0\<rparr>, replicate POLY_MAX_E None, replicate POLY_MAX_E None) = None"
    by (rule truncate_cut_overflow)
  then show ?thesis using pool tmp(1) by (simp add: poly_truncate_def)
qed

text \<open>
  The two other bounds are needed in the same way: with more than \<open>POLY_MAX_FV\<close> edges at a
  vertex the local array \<open>inc\<close> is overrun, and with \<open>F + V > POLY_MAX_F\<close> the write to
  \<open>out->fv[out->F]\<close> leaves the array.
\<close>

lemma truncate_vertex_overflow:
  assumes val: "POLY_MAX_FV < length (filter (incident vi) (edge_list tmp))"
  shows "truncate_vertex tmp cutA cutB vi out = None"
proof -
  let ?n = "unat (p_E tmp)"
  let ?es = "p_e tmp"
  let ?c = "\<lambda>e. length (filter (incident vi) (take e ?es))"
  let ?body = "\<lambda>e (inc, cnt). do {
              ed \<leftarrow> nth_opt (p_e tmp) e;
              if unat (e_a ed) = vi \<or> unat (e_b ed) = vi then do {
                inc' \<leftarrow> upd_opt inc (unat cnt) (Some (word_of_nat e :: 8 word));
                Some (inc', cnt + 1)
              } else Some (inc, cnt)
            }"
  let ?K = "\<lambda>e (st :: 8 word option list \<times> 8 word).
              length (fst st) = 10 \<and> unat (snd st) = ?c e \<and> ?c e \<le> 10"
  let ?L = "for_loop [0..<?n] ?body (replicate POLY_MAX_FV None, 0 :: 8 word)"
  have "?L = None"
  proof (cases ?L)
    case None
    then show ?thesis .
  next
    case (Some st)
    have "?K ?n st"
    proof (rule for_loop_pres_idx[where I = ?K, OF Some])
      show "?K 0 (replicate POLY_MAX_FV None, 0)" by (simp add: POLY_MAX_FV_def)
    next
      fix e u u'
      assume e: "e < ?n" and K: "?K e u" and b: "?body e u = Some u'"
      obtain inc cnt where u: "u = (inc, cnt)" by (cases u) auto
      from b u have lt: "e < length ?es"
        by (auto simp: nth_opt_def bind_eq_Some_conv split: if_splits)
      have tk: "take (Suc e) ?es = take e ?es @ [?es ! e]"
        using lt by (simp add: take_Suc_conv_app_nth)
      show "?K (Suc e) u'"
      proof (cases "incident vi (?es ! e)")
        case False
        then have "?c (Suc e) = ?c e" by (simp add: tk)
        moreover have "u' = u" using b u lt False by (simp add: nth_opt_def incident_def)
        ultimately show ?thesis using K by simp
      next
        case True
        then have cs: "?c (Suc e) = Suc (?c e)" by (simp add: tk)
        from b u lt True have c10: "unat cnt < length inc" and u': "u' = (inc[unat cnt := Some (word_of_nat e)], cnt + 1)"
          by (auto simp: nth_opt_def upd_opt_def incident_def bind_eq_Some_conv split: if_splits)
        have "unat cnt < 10" using c10 K u by simp
        then have "unat (cnt + 1) = Suc (unat cnt)" by (simp add: unat_plus_one_8)
        then show ?thesis using K u u' cs c10 by simp
      qed
    qed
    then have "?c ?n \<le> 10" by simp
    then show ?thesis using val by (simp add: edge_list_def POLY_MAX_FV_def)
  qed
  then show ?thesis by (simp add: truncate_vertex_def)
qed

lemma poly_truncate_overflow_valence:
  assumes iz: "poly_sized inp" and pr: "poly_prepared inp"
    and fit: "faces_fit inp" and V: "unat (p_V inp) \<le> POLY_MAX_V"
    and vi: "vi < unat (p_V inp)"
    and val: "POLY_MAX_FV < length (filter (incident vi) (edge_list inp))"
    and pool: "0 < pool"
  shows "poly_truncate pool inp out t = None"
proof -
  from poly_prepare_prepared[OF iz pr fit V] obtain tmp where
    tmp: "poly_prepare inp = Some tmp" "p_V tmp = p_V inp" "edge_list tmp = edge_list inp"
    by blast
  have "for_loop [0..<unat (p_V tmp)] (truncate_vertex tmp cA cB) o2 = None" for cA cB o2
    by (rule for_loop_None[of vi])
       (use vi val tmp in \<open>simp_all add: truncate_vertex_overflow\<close>)
  then show ?thesis
    using tmp(1) pool by (simp add: poly_truncate_def bind_eq_None_conv split_beta)
qed


lemma set_face_vertex_frame:
  assumes "set_face_vertex q fi k x = Some q'"
  shows "p_F q' = p_F q \<and> p_fv q' = p_fv q"
  using assms by (auto simp: set_face_vertex_def bind_eq_Some_conv)

lemma truncate_face_count:
  assumes st: "truncate_face tmp cutA cutB f out = Some o'" and len: "length (p_fv out) = 120"
  shows "unat (p_F o') = Suc (unat (p_F out)) \<and> length (p_fv o') = 120"
proof -
  from st obtain n fv' o1 where
    fv: "upd_opt (p_fv out) (unat (p_F out)) n = Some fv'" and
    lp: "for_loop [0..<unat n]
           (\<lambda>i q. do {
              row \<leftarrow> nth_opt (p_f tmp) f;
              vi \<leftarrow> nth_opt row i;
              vj \<leftarrow> nth_opt row ((i + 1) mod unat n);
              let aa = (if vi < vj then vi else vj);
              let bb = (if vi < vj then vj else vi);
              eidx \<leftarrow> poly_find_edge tmp aa bb;
              c \<leftarrow> cut_point tmp cutA cutB (unat vi) eidx;
              set_face_vertex q (unat (p_F q)) i c
            }) (out\<lparr>p_fv := fv'\<rparr>) = Some o1" and
    o': "o' = o1\<lparr>p_F := p_F o1 + 1\<rparr>"
    by (auto simp: truncate_face_def bind_eq_Some_conv)
  from fv have lt: "unat (p_F out) < 120" and fv': "length fv' = 120"
    using len by (auto simp: upd_opt_def split: if_splits)
  let ?I = "\<lambda>q. p_F q = p_F out \<and> length (p_fv q) = 120"
  have "?I o1"
  proof (rule for_loop_pres[where I = ?I, OF lp])
    show "?I (out\<lparr>p_fv := fv'\<rparr>)" using fv' by simp
  next
    fix i u u'
    assume "?I u" and
      "do {
         row \<leftarrow> nth_opt (p_f tmp) f;
         vi \<leftarrow> nth_opt row i;
         vj \<leftarrow> nth_opt row ((i + 1) mod unat n);
         let aa = (if vi < vj then vi else vj);
         let bb = (if vi < vj then vj else vi);
         eidx \<leftarrow> poly_find_edge tmp aa bb;
         c \<leftarrow> cut_point tmp cutA cutB (unat vi) eidx;
         set_face_vertex u (unat (p_F u)) i c
       } = Some u'"
    then show "?I u'"
      by (auto simp: bind_eq_Some_conv Let_def dest: set_face_vertex_frame)
  qed
  then show ?thesis using o' lt by (simp add: unat_plus_one_8)
qed

lemma truncate_vertex_count:
  assumes st: "truncate_vertex tmp cutA cutB vi out = Some o'" and len: "length (p_fv out) = 120"
  shows "unat (p_F o') = Suc (unat (p_F out)) \<and> length (p_fv o') = 120"
proof -
  from st obtain inc and cnt :: "8 word" and fv' o1 where
    fv: "upd_opt (p_fv out) (unat (p_F out)) cnt = Some fv'" and
    lp: "for_loop [0..<unat cnt]
           (\<lambda>k q. do {
              eidx \<leftarrow> read_init inc k;
              c \<leftarrow> cut_point tmp cutA cutB vi eidx;
              set_face_vertex q (unat (p_F q)) k c
            }) (out\<lparr>p_fv := fv'\<rparr>) = Some o1" and
    o': "o' = o1\<lparr>p_F := p_F o1 + 1\<rparr>"
    by (auto simp: truncate_vertex_def bind_eq_Some_conv)
  from fv have lt: "unat (p_F out) < 120" and fv': "length fv' = 120"
    using len by (auto simp: upd_opt_def split: if_splits)
  let ?I = "\<lambda>q. p_F q = p_F out \<and> length (p_fv q) = 120"
  have "?I o1"
  proof (rule for_loop_pres[where I = ?I, OF lp])
    show "?I (out\<lparr>p_fv := fv'\<rparr>)" using fv' by simp
  next
    fix i u u'
    assume "?I u" and
      "do {
         eidx \<leftarrow> read_init inc i;
         c \<leftarrow> cut_point tmp cutA cutB vi eidx;
         set_face_vertex u (unat (p_F u)) i c
       } = Some u'"
    then show "?I u'"
      by (auto simp: bind_eq_Some_conv dest: set_face_vertex_frame)
  qed
  then show ?thesis using o' lt by (simp add: unat_plus_one_8)
qed

lemma truncate_vertex_full:
  assumes "unat (p_F out) = 120" "length (p_fv out) = 120"
  shows "truncate_vertex tmp cutA cutB vi out = None"
  using assms by (simp add: truncate_vertex_def upd_opt_def split_beta bind_eq_None_conv)

lemma truncate_cut_frame:
  assumes "truncate_cut tmp t e st = Some st'"
  shows "p_fv (fst st') = p_fv (fst st)"
  using assms
  by (cases st) (auto simp: truncate_cut_def Let_def bind_eq_Some_conv)

lemma truncate_faces_overflow:
  assumes F: "unat (p_F tmp) \<le> 120" and FV: "120 < unat (p_F tmp) + unat (p_V tmp)"
    and len: "length (p_fv o1) = 120"
  shows "do { out2 \<leftarrow> for_loop [0..<unat (p_F tmp)] (truncate_face tmp cutA cutB)
                          (o1\<lparr>p_F := 0\<rparr>);
              for_loop [0..<unat (p_V tmp)] (truncate_vertex tmp cutA cutB) out2 } = None"
proof (cases "for_loop [0..<unat (p_F tmp)] (truncate_face tmp cutA cutB) (o1\<lparr>p_F := 0\<rparr>)")
  case None
  then show ?thesis by simp
next
  case (Some o2)
  let ?F = "unat (p_F tmp)"
  let ?k = "120 - ?F"
  have o2: "unat (p_F o2) = ?F \<and> length (p_fv o2) = 120"
  proof (rule for_loop_pres_idx[where I = "\<lambda>f q. unat (p_F q) = f \<and> length (p_fv q) = 120", OF Some])
    show "unat (p_F (o1\<lparr>p_F := 0\<rparr>)) = 0 \<and> length (p_fv (o1\<lparr>p_F := 0\<rparr>)) = 120"
      using len by simp
  next
    fix i u u'
    assume "i < ?F" "unat (p_F u) = i \<and> length (p_fv u) = 120"
      "truncate_face tmp cutA cutB i u = Some u'"
    then show "unat (p_F u') = Suc i \<and> length (p_fv u') = 120"
      using truncate_face_count[of tmp cutA cutB i u u'] by simp
  qed
  have k: "?k < unat (p_V tmp)" using F FV by simp
  have split: "[0..<unat (p_V tmp)] = [0..<?k] @ ?k # [Suc ?k..<unat (p_V tmp)]"
  proof -
    have "[0..<unat (p_V tmp)] = [0..<?k] @ [?k..<unat (p_V tmp)]"
      using k upt_add_eq_append[of 0 ?k "unat (p_V tmp) - ?k"] by simp
    moreover have "[?k..<unat (p_V tmp)] = ?k # [Suc ?k..<unat (p_V tmp)]"
      using k by (rule upt_conv_Cons)
    ultimately show ?thesis by simp
  qed
  have "for_loop [0..<unat (p_V tmp)] (truncate_vertex tmp cutA cutB) o2 = None"
  proof (cases "for_loop [0..<?k] (truncate_vertex tmp cutA cutB) o2")
    case None
    then show ?thesis unfolding split by (simp add: for_loop_append)
  next
    case (Some o3)
    have "unat (p_F o3) = ?F + ?k \<and> length (p_fv o3) = 120"
    proof (rule for_loop_pres_idx[where I = "\<lambda>v q. unat (p_F q) = ?F + v \<and> length (p_fv q) = 120",
             OF Some])
      show "unat (p_F o2) = ?F + 0 \<and> length (p_fv o2) = 120" using o2 by simp
    next
      fix i u u'
      assume "i < ?k" "unat (p_F u) = ?F + i \<and> length (p_fv u) = 120"
        "truncate_vertex tmp cutA cutB i u = Some u'"
      then show "unat (p_F u') = ?F + Suc i \<and> length (p_fv u') = 120"
        using truncate_vertex_count[of tmp cutA cutB i u u'] by simp
    qed
    then have "truncate_vertex tmp cutA cutB ?k o3 = None"
      using F by (simp add: truncate_vertex_full)
    then show ?thesis unfolding split using Some by (simp add: for_loop_append)
  qed
  then show ?thesis using Some by simp
qed

lemma poly_truncate_overflow_faces:
  assumes iz: "poly_sized inp" and oz: "poly_sized out" and pr: "poly_prepared inp"
    and fit: "faces_fit inp" and V: "unat (p_V inp) \<le> POLY_MAX_V"
    and FV: "POLY_MAX_F < unat (p_F inp) + unat (p_V inp)" and pool: "0 < pool"
  shows "poly_truncate pool inp out t = None"
proof -
  from poly_prepare_prepared[OF iz pr fit V] obtain tmp where
    tmp: "poly_prepare inp = Some tmp" "p_V tmp = p_V inp" "p_F tmp = p_F inp"
    by blast
  have F: "unat (p_F tmp) \<le> 120" using fit tmp(3) by (simp add: faces_fit_def POLY_MAX_F_def)
  have FV': "120 < unat (p_F tmp) + unat (p_V tmp)" using FV tmp by (simp add: POLY_MAX_F_def)
  let ?s = "(out\<lparr>p_V := 0\<rparr>, replicate POLY_MAX_E None, replicate POLY_MAX_E (None :: 8 word option))"
  let ?C = "for_loop [0..<unat (p_E tmp)] (truncate_cut tmp t) ?s"
  show ?thesis
  proof (cases ?C)
    case None
    then show ?thesis using pool tmp(1) by (simp add: poly_truncate_def)
  next
    case (Some st)
    obtain o1 cutA cutB where st: "st = (o1, cutA, cutB)" by (cases st) auto
    have "p_fv (fst st) = p_fv (fst ?s)"
      by (rule for_loop_pres[where I = "\<lambda>u. p_fv (fst u) = p_fv (fst ?s)", OF Some])
         (use truncate_cut_frame in auto)
    then have "length (p_fv o1) = 120"
      using oz st by (simp add: poly_sized_def POLY_MAX_F_def)
    from truncate_faces_overflow[OF F FV' this, of cutA cutB]
    show ?thesis using pool tmp(1) Some st
      by (auto simp: poly_truncate_def bind_eq_None_conv)
  qed
qed

text \<open>The seed of the rhombitruncated constructor.\<close>

lemma icosi_seed_eq:
  "\<exists>q vs. build_edges icosi_topo = Some q \<and> length vs = 200 \<and>
          poly_prepare icosi_faces = Some (q\<lparr>p_v := vs\<rparr>)"
proof -
  from icosi_topo_built obtain q where q: "build_edges icosi_topo = Some q"
    by (auto split: option.splits)
  have l: "length (p_v icosi_faces) = 200"
    by (simp add: icosi_faces_def icosi_V_def)
  have "unat (p_V icosi_faces) \<le> length (p_v icosi_faces)"
    unfolding l by (simp add: icosi_faces_def icosi_topo_def)
  from poly_prepare_eq[OF this] obtain vs where vs: "length vs = 200"
    "poly_prepare icosi_faces =
       build_edges (icosi_faces\<lparr>p_v := vs, p_e2f := replicate POLY_MAX_E (0xFF, 0xFF)\<rparr>)"
    using l by auto
  have "icosi_faces\<lparr>p_v := vs\<rparr> = icosi_topo\<lparr>p_v := vs\<rparr>" by (simp add: icosi_faces_def)
  then have "poly_prepare icosi_faces = Some (q\<lparr>p_v := vs\<rparr>)"
    using vs(2) q by (simp add: build_edges_e2f build_edges_v)
  then show ?thesis using q vs(1) by blast
qed

lemma icosi_seed_ok:
  "poly_prepare icosi_faces = Some icosi_seed \<and> poly_sized icosi_seed \<and>
   poly_prepared icosi_seed \<and> faces_fit icosi_seed \<and>
   unat (p_V icosi_seed) = 60 \<and> unat (p_E icosi_seed) = 120 \<and> unat (p_F icosi_seed) = 32"
proof -
  from icosi_seed_eq obtain q vs where q: "build_edges icosi_topo = Some q" "length vs = 200"
    "poly_prepare icosi_faces = Some (q\<lparr>p_v := vs\<rparr>)" by blast
  have s: "icosi_seed = q\<lparr>p_v := vs\<rparr>" using q(3) by (simp add: icosi_seed_def)
  have b: "poly_sized q \<and> faces_fit q \<and> unat (p_V q) = 60 \<and> unat (p_E q) = 120 \<and>
           unat (p_F q) = 32"
    using icosi_topo_built q(1) by simp
  have "poly_prepared icosi_seed"
    using poly_prepare_is_prepared[OF q(3)] s by simp
  moreover have "poly_sized icosi_seed"
    using b q(2) unfolding s by (simp add: poly_sized_def POLY_MAX_V_def)
  moreover have "faces_fit icosi_seed"
  proof -
    have "faces_fit q" using b by simp
    then show ?thesis unfolding s faces_fit_def by simp
  qed
  moreover have "unat (p_V icosi_seed) = 60 \<and> unat (p_E icosi_seed) = 120 \<and>
                 unat (p_F icosi_seed) = 32"
    using b unfolding s by simp
  moreover have "poly_prepare icosi_faces = Some icosi_seed" using q(3) unfolding s .
  ultimately show ?thesis by blast
qed

text \<open>
  Without the bound \<open>2 * E \<le> POLY_MAX_V\<close> the counts of C4 are not reached. \<open>poly_truncate\<close>
  has no capacity check (\<open>poly_dual\<close> has one), and the seed of the rhombitruncated
  constructor is prepared and inside the capacities of a polyhedron (60 vertices, 120 edges,
  32 faces), but its truncation needs 240 vertices: the loop over the edges writes
  \<open>out->v[200]\<close>, past the end of the vertex array.
\<close>

theorem poly_truncate_overflows:
  "poly_prepare icosi_faces = Some icosi_seed \<and> poly_sized icosi_seed \<and>
   poly_prepared icosi_seed \<and> faces_fit icosi_seed \<and>
   unat (p_V icosi_seed) = 60 \<and> unat (p_E icosi_seed) = 120 \<and> unat (p_F icosi_seed) = 32 \<and>
   poly_truncate 1 icosi_seed poly_zero (1 / 2) = None"
proof -
  note ok = icosi_seed_ok
  have "poly_truncate 1 icosi_seed poly_zero (1 / 2) = None"
    by (rule poly_truncate_overflow) (use ok poly_sized_zero in \<open>simp_all add: POLY_MAX_V_def\<close>)
  then show ?thesis using ok by simp
qed

end
